theory Spec2Isabelle
  imports Complex_Main "HOL-Library.Multiset"
begin

section \<open>JavaScript values\<close>

text \<open>
  The digest pipeline of \<^verbatim>\<open>classes/MailHandler.js\<close> works on data loaded from YAML
  documents: numbers, strings, booleans, \<^verbatim>\<open>null\<close>, arrays, and \<^verbatim>\<open>undefined\<close> for a
  property that is absent.

  A JavaScript number is a double. Its finite values are modelled as exact rationals
  (rounding and overflow of doubles are not modelled, and the two zeros are one value:
  no operation of the program tells them apart, because the only division is guarded by
  \<^verbatim>\<open>num2 !== 0\<close>); the three special values are kept, with the arithmetic IEEE 754
  gives them.
\<close>

datatype jsnum = Fin rat | PInf | NInf | NaN

datatype jsval =
    JUndef
  | JNull
  | JBool bool
  | JNum jsnum
  | JStr string
  | JArr "jsval list"

fun js_neg :: "jsnum \<Rightarrow> jsnum" where
  "js_neg (Fin a) = Fin (- a)"
| "js_neg PInf = NInf"
| "js_neg NInf = PInf"
| "js_neg NaN = NaN"

fun js_add :: "jsnum \<Rightarrow> jsnum \<Rightarrow> jsnum" where
  "js_add NaN _ = NaN"
| "js_add _ NaN = NaN"
| "js_add (Fin a) (Fin b) = Fin (a + b)"
| "js_add PInf NInf = NaN"
| "js_add NInf PInf = NaN"
| "js_add PInf _ = PInf"
| "js_add _ PInf = PInf"
| "js_add NInf _ = NInf"
| "js_add _ NInf = NInf"

definition js_sub :: "jsnum \<Rightarrow> jsnum \<Rightarrow> jsnum" where
  "js_sub a b = js_add a (js_neg b)"

fun js_mul :: "jsnum \<Rightarrow> jsnum \<Rightarrow> jsnum" where
  "js_mul NaN _ = NaN"
| "js_mul _ NaN = NaN"
| "js_mul (Fin a) (Fin b) = Fin (a * b)"
| "js_mul (Fin a) PInf = (if a = 0 then NaN else if 0 < a then PInf else NInf)"
| "js_mul (Fin a) NInf = (if a = 0 then NaN else if 0 < a then NInf else PInf)"
| "js_mul PInf (Fin b) = (if b = 0 then NaN else if 0 < b then PInf else NInf)"
| "js_mul NInf (Fin b) = (if b = 0 then NaN else if 0 < b then NInf else PInf)"
| "js_mul PInf PInf = PInf"
| "js_mul PInf NInf = NInf"
| "js_mul NInf PInf = NInf"
| "js_mul NInf NInf = PInf"

text \<open>
  Division. A finite number divided by zero is an infinity of the sign of the dividend
  (the zero is taken as \<^verbatim>\<open>+0\<close>); the program never divides by zero.
\<close>

fun js_div :: "jsnum \<Rightarrow> jsnum \<Rightarrow> jsnum" where
  "js_div NaN _ = NaN"
| "js_div _ NaN = NaN"
| "js_div (Fin a) (Fin b) =
     (if b = 0 then (if a = 0 then NaN else if 0 < a then PInf else NInf) else Fin (a / b))"
| "js_div (Fin a) PInf = Fin 0"
| "js_div (Fin a) NInf = Fin 0"
| "js_div PInf (Fin b) = (if 0 \<le> b then PInf else NInf)"
| "js_div NInf (Fin b) = (if 0 \<le> b then NInf else PInf)"
| "js_div PInf PInf = NaN"
| "js_div PInf NInf = NaN"
| "js_div NInf PInf = NaN"
| "js_div NInf NInf = NaN"

text \<open>The comparisons \<^verbatim>\<open><\<close> and \<^verbatim>\<open><=\<close> of numbers: false as soon as one side is NaN.\<close>

fun js_lt :: "jsnum \<Rightarrow> jsnum \<Rightarrow> bool" where
  "js_lt NaN _ = False"
| "js_lt _ NaN = False"
| "js_lt (Fin a) (Fin b) = (a < b)"
| "js_lt _ NInf = False"
| "js_lt PInf _ = False"
| "js_lt NInf _ = True"
| "js_lt _ PInf = True"

fun js_le :: "jsnum \<Rightarrow> jsnum \<Rightarrow> bool" where
  "js_le NaN _ = False"
| "js_le _ NaN = False"
| "js_le (Fin a) (Fin b) = (a \<le> b)"
| "js_le NInf _ = True"
| "js_le _ PInf = True"
| "js_le _ NInf = False"
| "js_le PInf _ = False"

text \<open>Truthiness of a number (\<^verbatim>\<open>0\<close> and \<^verbatim>\<open>NaN\<close> are falsy) and of a value.\<close>

fun truthy_num :: "jsnum \<Rightarrow> bool" where
  "truthy_num (Fin a) = (a \<noteq> 0)"
| "truthy_num NaN = False"
| "truthy_num _ = True"

fun truthy :: "jsval \<Rightarrow> bool" where
  "truthy JUndef = False"
| "truthy JNull = False"
| "truthy (JBool b) = b"
| "truthy (JNum n) = truthy_num n"
| "truthy (JStr s) = (s \<noteq> [])"
| "truthy (JArr _) = True"

subsection \<open>Built-ins of the runtime\<close>

text \<open>
  Three built-ins of the JavaScript engine are parameters of the model: the conversion
  of a string to a number (\<^verbatim>\<open>Number("12.5")\<close>), the conversion of a number to a string,
  and the regular expression engine (\<^verbatim>\<open>new RegExp(source)\<close> either throws a
  \<^verbatim>\<open>SyntaxError\<close> with the engine's message or gives the \<^verbatim>\<open>test\<close> predicate of the
  pattern on strings).
\<close>

datatype error =
    Error (message: string)
  | SyntaxError (message: string)
  | TypeError (message: string)

record js_runtime =
  string_to_number :: "string \<Rightarrow> jsnum"
  number_to_string :: "jsnum \<Rightarrow> string"
  regexp_compile :: "string \<Rightarrow> string + (string \<Rightarrow> bool)"

fun join_with :: "string \<Rightarrow> string list \<Rightarrow> string" where
  "join_with sep [] = []"
| "join_with sep [x] = x"
| "join_with sep (x # y # ys) = x @ sep @ join_with sep (y # ys)"

text \<open>
  \<^verbatim>\<open>String(v)\<close>; an array is joined with commas, \<^verbatim>\<open>null\<close> and \<^verbatim>\<open>undefined\<close>
  elements as empty strings.
\<close>

fun to_string :: "js_runtime \<Rightarrow> jsval \<Rightarrow> string" where
  "to_string rt JUndef = ''undefined''"
| "to_string rt JNull = ''null''"
| "to_string rt (JBool b) = (if b then ''true'' else ''false'')"
| "to_string rt (JNum n) = number_to_string rt n"
| "to_string rt (JStr s) = s"
| "to_string rt (JArr xs) =
     join_with '',''
       (map (\<lambda>x. if x = JUndef \<or> x = JNull then [] else to_string rt x) xs)"

text \<open>\<^verbatim>\<open>Number(v)\<close>; an array is converted through its string.\<close>

fun to_number :: "js_runtime \<Rightarrow> jsval \<Rightarrow> jsnum" where
  "to_number rt JUndef = NaN"
| "to_number rt JNull = Fin 0"
| "to_number rt (JBool b) = (if b then Fin 1 else Fin 0)"
| "to_number rt (JNum n) = n"
| "to_number rt (JStr s) = string_to_number rt s"
| "to_number rt (JArr xs) = string_to_number rt (to_string rt (JArr xs))"

section \<open>Post records and the two leaf functions\<close>

text \<open>
  A post record is an object with string keys; reading a key it does not have gives
  \<^verbatim>\<open>undefined\<close>.
\<close>

type_synonym post = "(string \<times> jsval) list"

definition get_prop :: "post \<Rightarrow> string \<Rightarrow> jsval" where
  "get_prop data k = (case map_of data k of None \<Rightarrow> JUndef | Some v \<Rightarrow> v)"

text \<open>
  \<^verbatim>\<open>fetchProp(data, prop)\<close>:
  \<^verbatim>\<open>
    let result = 0
    if (typeof prop === 'string' && data[prop]) result = data[prop]
    return !Number(result) ? 0 : Number(result)
  \<close>
\<close>

definition fetchProp :: "js_runtime \<Rightarrow> post \<Rightarrow> jsval \<Rightarrow> jsnum" where
  "fetchProp rt data prop =
     (let result =
        (case prop of
           JStr k \<Rightarrow> if truthy (get_prop data k) then get_prop data k else JNum (Fin 0)
         | _ \<Rightarrow> JNum (Fin 0))
      in if \<not> truthy_num (to_number rt result) then Fin 0 else to_number rt result)"

text \<open>
  \<^verbatim>\<open>safeEvaluate(operand1, operator, operand2)\<close>. The whitelist test
  \<^verbatim>\<open>allowedOperators.includes(operator)\<close> compares without conversion, so only the four
  strings pass; \<^verbatim>\<open>Number(x) || 0\<close> replaces NaN (and zero) by zero.
\<close>

definition allowedOperators :: "string list" where
  "allowedOperators = [''+'', ''-'', ''*'', ''/'']"

definition includes_str :: "string list \<Rightarrow> jsval \<Rightarrow> bool" where
  "includes_str xs v = (case v of JStr s \<Rightarrow> s \<in> set xs | _ \<Rightarrow> False)"

definition number_or_zero :: "js_runtime \<Rightarrow> jsval \<Rightarrow> jsnum" where
  "number_or_zero rt x = (if truthy_num (to_number rt x) then to_number rt x else Fin 0)"

definition safeEvaluate :: "js_runtime \<Rightarrow> jsval \<Rightarrow> jsval \<Rightarrow> jsval \<Rightarrow> error + jsnum" where
  "safeEvaluate rt operand1 operator operand2 =
     (if \<not> includes_str allowedOperators operator then
        Inl (Error (''Invalid operator: '' @ to_string rt operator @
                    ''. Allowed operators: '' @ join_with '', '' allowedOperators))
      else
        let num1 = number_or_zero rt operand1;
            num2 = number_or_zero rt operand2
        in if operator = JStr ''+'' then Inr (js_add num1 num2)
           else if operator = JStr ''-'' then Inr (js_sub num1 num2)
           else if operator = JStr ''*'' then Inr (js_mul num1 num2)
           else if operator = JStr ''/'' then
             Inr (if num2 \<noteq> Fin 0 then js_div num1 num2 else Fin 0)
           else Inr (Fin 0))"

section \<open>Sorting and slicing a collection\<close>

subsection \<open>Configurations\<close>

text \<open>
  A sort configuration as the YAML gives it; an option that is absent reads as
  \<^verbatim>\<open>undefined\<close>. The \<^verbatim>\<open>structure\<close> option is absent or not an object
  (\<open>NoStructure\<close>), \<^verbatim>\<open>null\<close> (an empty YAML value), or an object whose own keys, in
  the order \<^verbatim>\<open>for (let key in structure)\<close> visits them, each hold a configuration.
\<close>

datatype config =
  Config (cfg_sort: jsval) (cfg_ascending: jsval) (cfg_count: jsval)
         (cfg_property: jsval) (cfg_value: jsval) (cfg_structure: "structure")
and "structure" =
    NoStructure
  | NullStructure
  | Structure "(string \<times> config) list"

subsection \<open>The comparator\<close>

text \<open>
  The sort key of one record, as the comparator of \<^verbatim>\<open>sortAndSlicePost\<close> computes it for
  each of its two arguments: for a three-element array \<^verbatim>\<open>[fo, op, so]\<close> the evaluator on the
  two fetched properties, otherwise \<^verbatim>\<open>fetchProp(a, sort)\<close>.
\<close>

definition sortKey :: "js_runtime \<Rightarrow> jsval \<Rightarrow> post \<Rightarrow> error + jsnum" where
  "sortKey rt sortv a =
     (case sortv of
        JArr [fo, op, so] \<Rightarrow>
          safeEvaluate rt (JNum (fetchProp rt a fo)) op (JNum (fetchProp rt a so))
      | _ \<Rightarrow> Inr (fetchProp rt a sortv))"

text \<open>\<^verbatim>\<open>return ascending ? a - z : z - a\<close>\<close>

definition comparator :: "js_runtime \<Rightarrow> jsval \<Rightarrow> jsval \<Rightarrow> post \<Rightarrow> post \<Rightarrow> error + jsnum" where
  "comparator rt sortv ascending a z =
     (case sortKey rt sortv a of
        Inl e \<Rightarrow> Inl e
      | Inr valA \<Rightarrow>
          (case sortKey rt sortv z of
             Inl e \<Rightarrow> Inl e
           | Inr valZ \<Rightarrow>
               Inr (if truthy ascending then js_sub valA valZ else js_sub valZ valA)))"

subsection \<open>\<^verbatim>\<open>Array.prototype.sort\<close> and \<^verbatim>\<open>slice\<close>\<close>

text \<open>
  The engine's sort with a comparison function, as a stable insertion sort: an element
  moves behind another only when the comparison of the two is greater than zero (a NaN
  result counts as zero), and an exception of the comparison function ends the sort.
  The comparison function is not called on an array of fewer than two elements.
\<close>

fun insert_by :: "('a \<Rightarrow> 'a \<Rightarrow> error + jsnum) \<Rightarrow> 'a \<Rightarrow> 'a list \<Rightarrow> error + 'a list" where
  "insert_by cmp x [] = Inr [x]"
| "insert_by cmp x (y # ys) =
     (case cmp x y of
        Inl e \<Rightarrow> Inl e
      | Inr v \<Rightarrow>
          if js_lt (Fin 0) v then
            (case insert_by cmp x ys of Inl e \<Rightarrow> Inl e | Inr r \<Rightarrow> Inr (y # r))
          else Inr (x # y # ys))"

fun js_sort :: "('a \<Rightarrow> 'a \<Rightarrow> error + jsnum) \<Rightarrow> 'a list \<Rightarrow> error + 'a list" where
  "js_sort cmp [] = Inr []"
| "js_sort cmp (x # xs) =
     (case js_sort cmp xs of Inl e \<Rightarrow> Inl e | Inr r \<Rightarrow> insert_by cmp x r)"

text \<open>
  \<^verbatim>\<open>xs.slice(0, cnt)\<close>: the end is converted to a number and truncated towards
  zero; NaN counts as zero and a negative end counts from the end of the array.
\<close>

definition js_slice0 :: "js_runtime \<Rightarrow> 'a list \<Rightarrow> jsval \<Rightarrow> 'a list" where
  "js_slice0 rt xs cnt =
     (case to_number rt cnt of
        NaN \<Rightarrow> []
      | PInf \<Rightarrow> xs
      | NInf \<Rightarrow> []
      | Fin q \<Rightarrow>
          (let t = (if 0 \<le> q then \<lfloor>q\<rfloor> else \<lceil>q\<rceil>)
           in if t < 0 then take (nat (int (length xs) + t)) xs else take (nat t) xs))"

subsection \<open>The three stages on a list of posts\<close>

text \<open>
  The filter stage: when \<^verbatim>\<open>config.property && config.value\<close>, the regular expression is
  built from the value and tested on \<^verbatim>\<open>post[config.property]\<close> (both converted to
  strings by the engine).
\<close>

definition filter_posts :: "js_runtime \<Rightarrow> config \<Rightarrow> post list \<Rightarrow> error + post list" where
  "filter_posts rt config ps =
     (if truthy (cfg_property config) \<and> truthy (cfg_value config) then
        (case regexp_compile rt (to_string rt (cfg_value config)) of
           Inl msg \<Rightarrow> Inl (SyntaxError msg)
         | Inr test \<Rightarrow>
             Inr (filter (\<lambda>post. test (to_string rt
                    (get_prop post (to_string rt (cfg_property config))))) ps))
      else Inr ps)"

definition effective_sort :: "config \<Rightarrow> jsval" where
  "effective_sort config =
     (if truthy (cfg_sort config) then cfg_sort config else JStr ''points'')"

definition effective_count :: "config \<Rightarrow> jsval" where
  "effective_count config =
     (if truthy (cfg_count config) then cfg_count config else JNum (Fin 6))"

definition sort_posts :: "js_runtime \<Rightarrow> config \<Rightarrow> post list \<Rightarrow> error + post list" where
  "sort_posts rt config ps =
     js_sort (comparator rt (effective_sort config) (cfg_ascending config)) ps"

section \<open>Objects and arrays on the heap\<close>

text \<open>
  \<^verbatim>\<open>transformPosts\<close> and \<^verbatim>\<open>sortAndSlicePost\<close> assign to properties of the objects they
  are given and sort arrays in place, and \<^verbatim>\<open>Object.assign({}, posts)\<close> copies the
  reference of the \<^verbatim>\<open>posts\<close> array, not the array. Arrays of posts and objects
  therefore live in a store and are named by references. Post records and
  configurations are never written by these functions and stay values.
\<close>

type_synonym ref = nat

datatype obj =
    Collection (obj_posts: ref) (obj_config: config)
  | Sections (obj_sections: "ref list")
  | Document (obj_mails: "ref list") (obj_name: jsval)

record heap =
  arrays :: "ref \<Rightarrow> post list option"
  objects :: "ref \<Rightarrow> obj option"
  next_array :: ref
  next_object :: ref

definition alloc_array :: "post list \<Rightarrow> heap \<Rightarrow> ref \<times> heap" where
  "alloc_array xs h =
     (next_array h, h\<lparr>arrays := (arrays h)(next_array h \<mapsto> xs),
                      next_array := Suc (next_array h)\<rparr>)"

definition alloc_object :: "obj \<Rightarrow> heap \<Rightarrow> ref \<times> heap" where
  "alloc_object ob h =
     (next_object h, h\<lparr>objects := (objects h)(next_object h \<mapsto> ob),
                       next_object := Suc (next_object h)\<rparr>)"

text \<open>The assignment \<^verbatim>\<open>posts.posts = a\<close> on a collection object.\<close>

definition set_posts :: "ref \<Rightarrow> ref \<Rightarrow> heap \<Rightarrow> heap" where
  "set_posts r a h =
     (case objects h r of
        Some (Collection _ c) \<Rightarrow> h\<lparr>objects := (objects h)(r \<mapsto> Collection a c)\<rparr>
      | _ \<Rightarrow> h)"

text \<open>The assignment \<^verbatim>\<open>tempData.mails = ms\<close> on the document object.\<close>

definition set_mails :: "ref \<Rightarrow> ref list \<Rightarrow> heap \<Rightarrow> heap" where
  "set_mails d ms h =
     (case objects h d of
        Some (Document _ n) \<Rightarrow> h\<lparr>objects := (objects h)(d \<mapsto> Document ms n)\<rparr>
      | _ \<Rightarrow> h)"

text \<open>\<^verbatim>\<open>posts.posts\<close> read through a collection reference.\<close>

definition posts_of :: "heap \<Rightarrow> ref \<Rightarrow> post list option" where
  "posts_of h r =
     (case objects h r of
        Some (Collection a _) \<Rightarrow> arrays h a
      | _ \<Rightarrow> None)"

definition not_an_object :: error where
  "not_an_object = TypeError ''Cannot read properties of undefined''"

text \<open>
  \<^verbatim>\<open>sortAndSlicePost(posts)\<close>: the filter makes a new array and assigns it; the sort
  reorders the array \<^verbatim>\<open>posts.posts\<close> refers to, in place; the slice makes a new array,
  which is assigned. The collection object given is the one returned.
\<close>

definition sortAndSlicePost :: "js_runtime \<Rightarrow> ref \<Rightarrow> heap \<Rightarrow> error + (ref \<times> heap)" where
  "sortAndSlicePost rt posts h =
     (case objects h posts of
        Some (Collection pa config) \<Rightarrow>
          (case arrays h pa of
             None \<Rightarrow> Inl not_an_object
           | Some ps \<Rightarrow>
               (case filter_posts rt config ps of
                  Inl e \<Rightarrow> Inl e
                | Inr fs \<Rightarrow>
                    let (pa1, h1) =
                          (if truthy (cfg_property config) \<and> truthy (cfg_value config) then
                             (let (a, h') = alloc_array fs h in (a, set_posts posts a h'))
                           else (pa, h))
                    in
                    (case sort_posts rt config fs of
                       Inl e \<Rightarrow> Inl e
                     | Inr sorted_ps \<Rightarrow>
                         let h2 = h1\<lparr>arrays := (arrays h1)(pa1 \<mapsto> sorted_ps)\<rparr>;
                             (pa2, h3) =
                               alloc_array (js_slice0 rt sorted_ps (effective_count config)) h2
                         in Inr (posts, set_posts posts pa2 h3))))
      | _ \<Rightarrow> Inl not_an_object)"

text \<open>
  The loop over the keys of a non-empty structure:
  \<^verbatim>\<open>
    for (let key in structure) {
      let tempPosts = Object.assign({}, posts)
      tempPosts.config = structure[key]
      tempPosts = this.sortAndSlicePost(tempPosts)
      sectionArray.push(tempPosts)
    }
  \<close>
\<close>

fun sections_loop ::
  "js_runtime \<Rightarrow> ref \<Rightarrow> (string \<times> config) list \<Rightarrow> heap \<Rightarrow> error + (ref list \<times> heap)" where
  "sections_loop rt posts [] h = Inr ([], h)"
| "sections_loop rt posts ((key, c) # rest) h =
     (case objects h posts of
        Some (Collection pa _) \<Rightarrow>
          (let (tempPosts, h1) = alloc_object (Collection pa c) h in
           case sortAndSlicePost rt tempPosts h1 of
             Inl e \<Rightarrow> Inl e
           | Inr (tempPosts', h2) \<Rightarrow>
               (case sections_loop rt posts rest h2 of
                  Inl e \<Rightarrow> Inl e
                | Inr (sectionArray, h3) \<Rightarrow> Inr (tempPosts' # sectionArray, h3)))
      | _ \<Rightarrow> Inl not_an_object)"

text \<open>
  The function mapped over \<^verbatim>\<open>data.mails\<close>. \<^verbatim>\<open>typeof null\<close> is \<^verbatim>\<open>'object'\<close>, and
  \<^verbatim>\<open>Object.keys(null)\<close> throws.
\<close>

definition shape_collection :: "js_runtime \<Rightarrow> ref \<Rightarrow> heap \<Rightarrow> error + (ref \<times> heap)" where
  "shape_collection rt posts h =
     (case objects h posts of
        Some (Collection pa config) \<Rightarrow>
          (case cfg_structure config of
             NullStructure \<Rightarrow> Inl (TypeError ''Cannot convert undefined or null to object'')
           | Structure (e # es) \<Rightarrow>
               (case sections_loop rt posts (e # es) h of
                  Inl err \<Rightarrow> Inl err
                | Inr (sectionArray, h1) \<Rightarrow> Inr (alloc_object (Sections sectionArray) h1))
           | _ \<Rightarrow> sortAndSlicePost rt posts h)
      | _ \<Rightarrow> Inl not_an_object)"

fun map_mails :: "js_runtime \<Rightarrow> ref list \<Rightarrow> heap \<Rightarrow> error + (ref list \<times> heap)" where
  "map_mails rt [] h = Inr ([], h)"
| "map_mails rt (p # ps) h =
     (case shape_collection rt p h of
        Inl e \<Rightarrow> Inl e
      | Inr (r, h1) \<Rightarrow>
          (case map_mails rt ps h1 of
             Inl e \<Rightarrow> Inl e
           | Inr (rs, h2) \<Rightarrow> Inr (r # rs, h2)))"

text \<open>
  \<^verbatim>\<open>transformPosts(data)\<close>: \<^verbatim>\<open>tempData\<close> is the object \<^verbatim>\<open>data\<close> itself; its
  \<^verbatim>\<open>mails\<close> property is assigned the mapped array and the object is returned.
\<close>

definition transformPosts :: "js_runtime \<Rightarrow> ref \<Rightarrow> heap \<Rightarrow> error + (ref \<times> heap)" where
  "transformPosts rt data h =
     (case objects h data of
        Some (Document mails _) \<Rightarrow>
          (case map_mails rt mails h of
             Inl e \<Rightarrow> Inl e
           | Inr (mails', h') \<Rightarrow> Inr (data, set_mails data mails' h'))
      | _ \<Rightarrow> Inl not_an_object)"

section \<open>Delivery\<close>

subsection \<open>The handler and its configuration\<close>

text \<open>The fields the constructor stores. A string is a list of 8-bit characters.\<close>

record handler =
  port :: jsval
  username :: jsval
  password :: jsval
  host :: jsval
  fromEmail :: jsval
  dataDir :: jsval
  viewsDir :: jsval

text \<open>The constructor rejects a falsy field, in this order.\<close>

definition new_MailHandler :: "handler \<Rightarrow> error + handler" where
  "new_MailHandler args =
     (if \<not> truthy (username args) then Inl (Error ''username not provided'')
      else if \<not> truthy (password args) then Inl (Error ''password not provided'')
      else if \<not> truthy (host args) then Inl (Error ''host not provided'')
      else if \<not> truthy (port args) then Inl (Error ''port not provided'')
      else if \<not> truthy (fromEmail args) then Inl (Error ''fromEmail not provided'')
      else if \<not> truthy (dataDir args) then Inl (Error ''dataDir not provided'')
      else if \<not> truthy (viewsDir args) then Inl (Error ''viewsDir not provided'')
      else Inr args)"

text \<open>
  The process environment: every variable that is set holds a string, whatever was
  assigned to it (\<^verbatim>\<open>process.env.PORT = 2525\<close> stores \<^verbatim>\<open>'2525'\<close>); reading a variable
  that is not set gives \<^verbatim>\<open>undefined\<close>.
\<close>

type_synonym env = "string \<Rightarrow> string option"

definition env_get :: "env \<Rightarrow> string \<Rightarrow> jsval" where
  "env_get e k = (case e k of None \<Rightarrow> JUndef | Some s \<Rightarrow> JStr s)"

definition env_default :: "env \<Rightarrow> string \<Rightarrow> string \<Rightarrow> env" where
  "env_default e k d = (if truthy (env_get e k) then e else e(k \<mapsto> d))"

text \<open>
  \<^verbatim>\<open>DataHandler.loadConfig\<close>, after the \<^verbatim>\<open>dotenv\<close> file has been read into the
  environment; the normalised assets path is a parameter.
\<close>

definition loadConfig :: "string \<Rightarrow> env \<Rightarrow> env" where
  "loadConfig assets e =
     (let e1 = env_default e ''SCRAPPER_SCHEMA_FILE'' ''scrapper-schema.yaml'';
          e2 = env_default e1 ''VIEWS_DIR'' ''./email-templates'';
          e3 = env_default e2 ''MAIL_DATA_DIR'' ''./mail-data''
      in e3(''ASSETS_URL'' \<mapsto> assets))"

definition init :: "string \<Rightarrow> env \<Rightarrow> error + handler" where
  "init assets e =
     (let e' = loadConfig assets e in
      new_MailHandler
        \<lparr>port = env_get e' ''PORT'',
         username = env_get e' ''LOGIN'',
         password = env_get e' ''PASSWORD'',
         host = env_get e' ''HOST'',
         fromEmail = env_get e' ''FROM_EMAIL'',
         dataDir = env_get e' ''MAIL_DATA_DIR'',
         viewsDir = env_get e' ''VIEWS_DIR''\<rparr>)"

subsection \<open>Address validation\<close>

text \<open>
  The white space of \<^verbatim>\<open>\s\<close> and of \<^verbatim>\<open>trim\<close> among the 8-bit characters.
\<close>

definition is_space :: "char \<Rightarrow> bool" where
  "is_space c =
     (c \<in> set [CHR 0x09, CHR 0x0A, CHR 0x0B, CHR 0x0C, CHR 0x0D, CHR 0x20, CHR 0xA0])"

definition trim :: "string \<Rightarrow> string" where
  "trim s = rev (dropWhile is_space (rev (dropWhile is_space s)))"

text \<open>
  \<^verbatim>\<open>/^[^\s@]+@[^\s@]+\.[^\s@]+$/.test(s)\<close>: no white space, exactly one \<^verbatim>\<open>@\<close> with a
  character before it, and after it a dot that is neither the first nor the last
  character.
\<close>

definition email_shape :: "string \<Rightarrow> bool" where
  "email_shape s =
     (let name_part = takeWhile (\<lambda>c. c \<noteq> CHR ''@'') s;
          rest = dropWhile (\<lambda>c. c \<noteq> CHR ''@'') s
      in name_part \<noteq> [] \<and> rest \<noteq> [] \<and> CHR ''@'' \<notin> set (tl rest)
         \<and> CHR ''.'' \<in> set (butlast (tl (tl rest)))
         \<and> list_all (\<lambda>c. \<not> is_space c) s)"

definition isValidEmail :: "jsval \<Rightarrow> bool" where
  "isValidEmail email =
     (case email of
        JStr s \<Rightarrow> s \<noteq> [] \<and> email_shape (trim s)
      | _ \<Rightarrow> False)"

definition is_nonempty_string :: "jsval \<Rightarrow> bool" where
  "is_nonempty_string v = (case v of JStr s \<Rightarrow> s \<noteq> [] | _ \<Rightarrow> False)"

subsection \<open>Sending\<close>

text \<open>
  The options \<^verbatim>\<open>sendMail\<close> gives \<^verbatim>\<open>createTransport\<close>, and the message it hands to the
  transporter. \<^verbatim>\<open>secure: this.port === 465\<close> is a strict comparison with the number.
\<close>

record transport_options =
  opt_host :: jsval
  opt_port :: jsval
  opt_secure :: bool
  opt_user :: jsval
  opt_pass :: jsval
  opt_connectionTimeout :: nat
  opt_greetingTimeout :: nat
  opt_socketTimeout :: nat
  opt_from :: jsval

record mail_option =
  opt_to :: jsval
  opt_html :: jsval
  opt_subject :: jsval

definition transport_options_of :: "handler \<Rightarrow> transport_options" where
  "transport_options_of mh =
     \<lparr>opt_host = host mh,
      opt_port = port mh,
      opt_secure = (port mh = JNum (Fin 465)),
      opt_user = username mh,
      opt_pass = password mh,
      opt_connectionTimeout = 10000,
      opt_greetingTimeout = 10000,
      opt_socketTimeout = 10000,
      opt_from = fromEmail mh\<rparr>"

text \<open>
  The mail relay is outside of the program: a transport tells, for the options, the
  message and the number of messages handed to it before, whether the relay reports an
  error (its message) or accepts. The world counts the messages handed to the transport
  and records the delays waited, in milliseconds.
\<close>

type_synonym transport = "transport_options \<Rightarrow> mail_option \<Rightarrow> nat \<Rightarrow> string option"

record world =
  sent :: nat
  sleeps :: "nat list"

definition sendMail ::
  "js_runtime \<Rightarrow> handler \<Rightarrow> transport \<Rightarrow> jsval \<Rightarrow> jsval \<Rightarrow> jsval \<Rightarrow> world
     \<Rightarrow> (error + unit) \<times> world" where
  "sendMail rt mh tr email mail name w =
     (if \<not> isValidEmail email then
        (Inl (Error (''Invalid recipient email: '' @ to_string rt email)), w)
      else if \<not> isValidEmail (fromEmail mh) then
        (Inl (Error (''Invalid sender email: '' @ to_string rt (fromEmail mh))), w)
      else if \<not> is_nonempty_string mail then
        (Inl (Error ''Email content is required and must be a string''), w)
      else if \<not> is_nonempty_string name then
        (Inl (Error ''Email subject is required and must be a string''), w)
      else
        (case tr (transport_options_of mh)
                 \<lparr>opt_to = email, opt_html = mail, opt_subject = name\<rparr> (sent w) of
           Some m \<Rightarrow> (Inl (Error (''SMTP error: '' @ m)), w\<lparr>sent := Suc (sent w)\<rparr>)
         | None \<Rightarrow> (Inr (), w\<lparr>sent := Suc (sent w)\<rparr>)))"

fun show_nat :: "nat \<Rightarrow> string" where
  "show_nat n =
     (if n < 10 then [''0123456789'' ! n]
      else show_nat (n div 10) @ [''0123456789'' ! (n mod 10)])"

text \<open>
  The loop of \<^verbatim>\<open>sendMailWithRetry\<close> from attempt \<open>attempt\<close> on, with the last error
  caught so far. After the loop, \<^verbatim>\<open>lastError.message\<close> is read; with no attempt made
  there is no last error and the read throws.
\<close>

function retry_loop ::
  "js_runtime \<Rightarrow> handler \<Rightarrow> transport \<Rightarrow> jsval \<Rightarrow> jsval \<Rightarrow> jsval \<Rightarrow> nat \<Rightarrow> nat
     \<Rightarrow> error option \<Rightarrow> world \<Rightarrow> (error + unit) \<times> world" where
  "retry_loop rt mh tr email mail name maxRetries attempt lastError w =
     (if attempt \<le> maxRetries then
        (case sendMail rt mh tr email mail name w of
           (Inr u, w1) \<Rightarrow> (Inr (), w1)
         | (Inl err, w1) \<Rightarrow>
             retry_loop rt mh tr email mail name maxRetries (Suc attempt) (Some err)
               (if attempt < maxRetries
                then w1\<lparr>sleeps := sleeps w1 @ [2 ^ attempt * 1000]\<rparr>
                else w1))
      else
        (case lastError of
           None \<Rightarrow> (Inl (TypeError ''Cannot read properties of undefined (reading 'message')''), w)
         | Some err \<Rightarrow>
             (Inl (Error (''Failed to send email after '' @ show_nat maxRetries @
                          '' attempts: '' @ message err)), w)))"
  by pat_completeness auto
termination
  by (relation "measure (\<lambda>(rt, mh, tr, email, mail, name, maxRetries, attempt, lastError, w).
                           Suc maxRetries - attempt)") auto

text \<open>\<^verbatim>\<open>sendMailWithRetry(email, mail, name, maxRetries = 3)\<close>\<close>

definition sendMailWithRetry ::
  "js_runtime \<Rightarrow> handler \<Rightarrow> transport \<Rightarrow> jsval \<Rightarrow> jsval \<Rightarrow> jsval \<Rightarrow> nat option \<Rightarrow> world
     \<Rightarrow> (error + unit) \<times> world" where
  "sendMailWithRetry rt mh tr email mail name maxRetries w =
     retry_loop rt mh tr email mail name (case maxRetries of None \<Rightarrow> 3 | Some n \<Rightarrow> n)
       1 None w"

section \<open>The batch\<close>

text \<open>
  \<^verbatim>\<open>/(.+)-mail-[0-9]+\.yaml$/.test(file)\<close>, read from the end of the name: the
  extension, at least one digit, \<^verbatim>\<open>-mail-\<close>, and before it a character that is not a
  line terminator.
\<close>

definition strip_prefix :: "'a list \<Rightarrow> 'a list \<Rightarrow> 'a list option" where
  "strip_prefix p xs = (if take (length p) xs = p then Some (drop (length p) xs) else None)"

definition is_digit :: "char \<Rightarrow> bool" where
  "is_digit c = (c \<in> set ''0123456789'')"

definition emailRegex_test :: "string \<Rightarrow> bool" where
  "emailRegex_test file =
     (case strip_prefix (rev ''.yaml'') (rev file) of
        None \<Rightarrow> False
      | Some r1 \<Rightarrow>
          takeWhile is_digit r1 \<noteq> [] \<and>
          (case strip_prefix (rev ''-mail-'') (dropWhile is_digit r1) of
             None \<Rightarrow> False
           | Some r2 \<Rightarrow> r2 \<noteq> [] \<and> hd r2 \<noteq> CHR 0x0A \<and> hd r2 \<noteq> CHR 0x0D))"

fun contains_dotdot :: "string \<Rightarrow> bool" where
  "contains_dotdot (a # b # rest) =
     ((a = CHR ''.'' \<and> b = CHR ''.'') \<or> contains_dotdot (b # rest))"
| "contains_dotdot _ = False"

text \<open>
  What the batch reads from outside: the directory listing (or the error of
  \<^verbatim>\<open>readdirSync\<close>), the outcome of \<^verbatim>\<open>mkdirSync\<close>, \<^verbatim>\<open>path.resolve\<close>, and the outcome of
  \<^verbatim>\<open>constructMailData\<close> for a path (it reads and parses the file, shapes, renders and
  inlines the document: either the error it throws or the mail data).

  \<^verbatim>\<open>path.resolve\<close> takes strings and raises on any other argument. The model of
  \<^verbatim>\<open>isSafePath\<close> covers a handler whose data directory is a string, the only kind of
  directory among the values modelled here that \<^verbatim>\<open>readdirSync\<close> lists; the statements
  about the batch assume it.
\<close>

record mail_data =
  md_mail :: jsval
  md_email :: jsval
  md_name :: jsval

record batch_env =
  readdir :: "error + string list"
  mkdir :: "error option"
  path_resolve :: "string list \<Rightarrow> string"
  constructMailData :: "string \<Rightarrow> error + mail_data"

definition isSafePath :: "js_runtime \<Rightarrow> handler \<Rightarrow> batch_env \<Rightarrow> string \<Rightarrow> bool" where
  "isSafePath rt mh be filePath =
     (if filePath = [] then False
      else if contains_dotdot filePath then False
      else
        (let resolved = path_resolve be [to_string rt (dataDir mh), filePath];
             dataDirResolved = path_resolve be [to_string rt (dataDir mh)]
         in take (length dataDirResolved) resolved = dataDirResolved))"

record batch_result =
  success :: nat
  failed :: nat
  errors :: "string list"

text \<open>The \<^verbatim>\<open>catch\<close> block of the loop body.\<close>

definition record_failure :: "string \<Rightarrow> error \<Rightarrow> batch_result \<Rightarrow> batch_result" where
  "record_failure file err res =
     res\<lparr>errors := errors res @ [''Failed to process '' @ file @ '': '' @ message err],
         failed := Suc (failed res)\<rparr>"

text \<open>
  The \<^verbatim>\<open>try\<close> block of the loop body: composing, checking the address, delivering.
  It ends by delivering, by the \<^verbatim>\<open>continue\<close> on an invalid address, or by an exception.
\<close>

datatype outcome = Delivered | InvalidAddress string | Raised error

definition attempt_file ::
  "js_runtime \<Rightarrow> handler \<Rightarrow> batch_env \<Rightarrow> transport \<Rightarrow> string \<Rightarrow> world \<Rightarrow> outcome \<times> world" where
  "attempt_file rt mh be tr file w =
     (case constructMailData be (to_string rt (dataDir mh) @ ''/'' @ file) of
        Inl err \<Rightarrow> (Raised err, w)
      | Inr d \<Rightarrow>
          if \<not> isValidEmail (md_email d) then (InvalidAddress (to_string rt (md_email d)), w)
          else
            (case sendMailWithRetry rt mh tr (md_email d) (md_mail d) (md_name d) (Some 3) w of
               (Inl err, w') \<Rightarrow> (Raised err, w')
             | (Inr u, w') \<Rightarrow> (Delivered, w')))"

text \<open>One iteration of \<^verbatim>\<open>for (const file of files)\<close>.\<close>

definition process_file ::
  "js_runtime \<Rightarrow> handler \<Rightarrow> batch_env \<Rightarrow> transport \<Rightarrow> string
     \<Rightarrow> batch_result \<times> world \<Rightarrow> batch_result \<times> world" where
  "process_file rt mh be tr file st =
     (let (res, w) = st in
      if \<not> emailRegex_test file then (res, w)
      else if \<not> isSafePath rt mh be file then
        (res\<lparr>errors := errors res @ [''Skipping unsafe file path: '' @ file]\<rparr>, w)
      else
        (case attempt_file rt mh be tr file w of
           (Delivered, w') \<Rightarrow> (res\<lparr>success := Suc (success res)\<rparr>, w')
         | (InvalidAddress a, w') \<Rightarrow>
             (res\<lparr>errors := errors res @
                    [''Invalid email address in file '' @ file @ '': '' @ a],
                  failed := Suc (failed res)\<rparr>, w')
         | (Raised err, w') \<Rightarrow> (record_failure file err res, w')))"

definition process_files ::
  "js_runtime \<Rightarrow> handler \<Rightarrow> batch_env \<Rightarrow> transport \<Rightarrow> string list
     \<Rightarrow> batch_result \<times> world \<Rightarrow> batch_result \<times> world" where
  "process_files rt mh be tr files st = fold (process_file rt mh be tr) files st"

text \<open>
  \<^verbatim>\<open>start()\<close>: when the directory cannot be listed it is created and the batch is
  empty; an error of \<^verbatim>\<open>mkdirSync\<close> is not caught.
\<close>

definition start ::
  "js_runtime \<Rightarrow> handler \<Rightarrow> batch_env \<Rightarrow> transport \<Rightarrow> world
     \<Rightarrow> (error + batch_result) \<times> world" where
  "start rt mh be tr w =
     (case readdir be of
        Inl e \<Rightarrow>
          (case mkdir be of
             Some e' \<Rightarrow> (Inl e', w)
           | None \<Rightarrow> (Inr \<lparr>success = 0, failed = 0, errors = []\<rparr>, w))
      | Inr files \<Rightarrow>
          (let (res, w') =
                 process_files rt mh be tr files (\<lparr>success = 0, failed = 0, errors = []\<rparr>, w)
           in (Inr res, w')))"

section \<open>Statements of the specification, and inputs to run the model on\<close>

text \<open>
  The specification's evaluator coerces a non-numeric operand to zero: an operand whose
  conversion to a number is NaN.
\<close>

definition coerce_operand :: "js_runtime \<Rightarrow> jsval \<Rightarrow> jsnum" where
  "coerce_operand rt x = (if to_number rt x = NaN then Fin 0 else to_number rt x)"

text \<open>
  The specification's \<^verbatim>\<open>fetchProp\<close>: zero if the name is not a string, or the record lacks
  a truthy value at that key, or the value does not coerce to a finite number; otherwise
  the coerced number.
\<close>

definition is_finite :: "jsnum \<Rightarrow> bool" where
  "is_finite n = (case n of Fin _ \<Rightarrow> True | _ \<Rightarrow> False)"

definition fetchProp_spec :: "js_runtime \<Rightarrow> post \<Rightarrow> jsval \<Rightarrow> jsnum" where
  "fetchProp_spec rt data prop =
     (case prop of
        JStr k \<Rightarrow>
          if truthy (get_prop data k) \<and> is_finite (to_number rt (get_prop data k))
          then to_number rt (get_prop data k) else Fin 0
      | _ \<Rightarrow> Fin 0)"

text \<open>The two shapes of \<^verbatim>\<open>config.sort\<close> the specification names.\<close>

definition is_string :: "jsval \<Rightarrow> bool" where
  "is_string v = (case v of JStr _ \<Rightarrow> True | _ \<Rightarrow> False)"

definition is_triple :: "jsval \<Rightarrow> bool" where
  "is_triple v = (case v of JArr [a, b, c] \<Rightarrow> True | _ \<Rightarrow> False)"

text \<open>
  A runtime to evaluate the model with. It agrees with the engine on the inputs used
  below: a string of decimal digits converts to its number, the empty string to zero and
  a string with any other character to NaN; an integer, an infinity and NaN convert to
  their usual strings; a pattern is read as a literal text to find, except \<^verbatim>\<open>(\<close>, which
  the engine rejects.
\<close>

fun contains_str :: "string \<Rightarrow> string \<Rightarrow> bool" where
  "contains_str p [] = (p = [])"
| "contains_str p (c # cs) = (take (length p) (c # cs) = p \<or> contains_str p cs)"

definition digit_value :: "char \<Rightarrow> nat" where
  "digit_value c = (case map_of (zip ''0123456789'' [0 ..< 10]) c of Some d \<Rightarrow> d | None \<Rightarrow> 0)"

definition read_nat :: "string \<Rightarrow> nat" where
  "read_nat s = foldl (\<lambda>n c. 10 * n + digit_value c) 0 s"

definition example_runtime :: js_runtime where
  "example_runtime =
     \<lparr>string_to_number =
        (\<lambda>s. if list_all is_digit s then Fin (of_nat (read_nat s)) else NaN),
      number_to_string =
        (\<lambda>n. case n of
                 NaN \<Rightarrow> ''NaN''
               | PInf \<Rightarrow> ''Infinity''
               | NInf \<Rightarrow> ''-Infinity''
               | Fin q \<Rightarrow>
                   (if 0 \<le> q then show_nat (nat \<lfloor>q\<rfloor>) else CHR ''-'' # show_nat (nat \<lfloor>- q\<rfloor>))),
      regexp_compile =
        (\<lambda>src. if src = ''('' then Inl ''Invalid regular expression: /(/: Unterminated group''
               else Inr (contains_str src))\<rparr>"

text \<open>A configuration with no option set.\<close>

definition unsorted_config :: config where
  "unsorted_config = Config JUndef JUndef JUndef JUndef JUndef NoStructure"

text \<open>
  A payload passes the checks of \<^verbatim>\<open>sendMail\<close> when the recipient and the configured
  sender have the shape of an address and the content and the subject are non-empty
  strings.
\<close>

definition valid_payload :: "handler \<Rightarrow> jsval \<Rightarrow> jsval \<Rightarrow> jsval \<Rightarrow> bool" where
  "valid_payload mh email mail name =
     (isValidEmail email \<and> isValidEmail (fromEmail mh) \<and> is_nonempty_string mail
      \<and> is_nonempty_string name)"

text \<open>
  Transports: one that reports an error for the first two messages and accepts from
  the third on, one that reports an error for every message, one that accepts every
  message.
\<close>

definition flaky_transport :: transport where
  "flaky_transport opts msg k = (if k < 2 then Some ''connection timed out'' else None)"

definition failing_transport :: transport where
  "failing_transport opts msg k = Some (''relay down '' @ show_nat k)"

definition accepting_transport :: transport where
  "accepting_transport opts msg k = None"

text \<open>The handler the tests of the repository configure, and an environment with port 465.\<close>

definition example_handler :: handler where
  "example_handler =
     \<lparr>port = JStr ''2525'', username = JStr ''jane'', password = JStr ''james'',
      host = JStr ''somehost'', fromEmail = JStr ''janedoe@mail.com'',
      dataDir = JStr ''data'', viewsDir = JStr ''./email-templates''\<rparr>"

definition env465 :: env where
  "env465 =
     [''PORT'' \<mapsto> ''465'', ''LOGIN'' \<mapsto> ''jane'', ''PASSWORD'' \<mapsto> ''james'',
      ''HOST'' \<mapsto> ''smtp.example.com'', ''FROM_EMAIL'' \<mapsto> ''janedoe@mail.com'']"

text \<open>
  The candidates of a batch (the file names that match the pattern and pass the path
  check) and the names that match but fail the path check.
\<close>

definition is_candidate :: "js_runtime \<Rightarrow> handler \<Rightarrow> batch_env \<Rightarrow> string \<Rightarrow> bool" where
  "is_candidate rt mh be f = (emailRegex_test f \<and> isSafePath rt mh be f)"

definition is_unsafe :: "js_runtime \<Rightarrow> handler \<Rightarrow> batch_env \<Rightarrow> string \<Rightarrow> bool" where
  "is_unsafe rt mh be f = (emailRegex_test f \<and> \<not> isSafePath rt mh be f)"

definition empty_result :: batch_result where
  "empty_result = \<lparr>success = 0, failed = 0, errors = []\<rparr>"

text \<open>
  A directory of four entries: three candidates, the second of which cannot be parsed,
  and a file that is no candidate.
\<close>

definition example_batch :: batch_env where
  "example_batch =
     \<lparr>readdir = Inr [''a@x.io-mail-0.yaml'', ''notes.txt'', ''b@x.io-mail-1.yaml'',
                     ''c@x.io-mail-2.yaml''],
      mkdir = None,
      path_resolve = (\<lambda>parts. ''/srv/'' @ join_with ''/'' parts),
      constructMailData =
        (\<lambda>path. if path = ''data/b@x.io-mail-1.yaml''
                 then Inl (Error ''Failed to parse YAML file data/b@x.io-mail-1.yaml: bad indentation'')
                 else Inr \<lparr>md_mail = JStr ''<h1>Daily Digest</h1>'',
                           md_email = JStr (take 6 (drop 5 path)),
                           md_name = JStr ''Daily Digest''\<rparr>)\<rparr>"

text \<open>
  The result of \<^verbatim>\<open>sortAndSlicePost\<close> as a value: the three stages on the posts of the
  collection.
\<close>

definition shaped_posts :: "js_runtime \<Rightarrow> config \<Rightarrow> post list \<Rightarrow> error + post list" where
  "shaped_posts rt c ps =
     (case filter_posts rt c ps of
        Inl e \<Rightarrow> Inl e
      | Inr fs \<Rightarrow>
          (case sort_posts rt c fs of
             Inl e \<Rightarrow> Inl e
           | Inr ss \<Rightarrow> Inr (js_slice0 rt ss (effective_count c))))"

text \<open>The posts a call returned: \<^verbatim>\<open>result.posts\<close>, read in the heap the call left.\<close>

definition returned_posts :: "error + ref \<times> heap \<Rightarrow> error + post list" where
  "returned_posts res =
     (case res of
        Inl e \<Rightarrow> Inl e
      | Inr (r, h) \<Rightarrow> (case posts_of h r of Some ps \<Rightarrow> Inr ps | None \<Rightarrow> Inl not_an_object))"

text \<open>\<^verbatim>\<open>config.count\<close> is the positive integer \<open>n\<close>, or it is absent and \<open>n\<close> is 6.\<close>

definition count_is :: "config \<Rightarrow> nat \<Rightarrow> bool" where
  "count_is c n =
     ((cfg_count c = JNum (Fin (of_nat n)) \<and> 0 < n) \<or> (cfg_count c = JUndef \<and> n = 6))"

text \<open>
  The order the configuration asks for between a record and the one after it: both have
  a key, and the keys compare with \<^verbatim>\<open><=\<close> when \<^verbatim>\<open>config.ascending\<close> is truthy and with
  \<^verbatim>\<open>>=\<close> otherwise.
\<close>

definition key_order :: "js_runtime \<Rightarrow> config \<Rightarrow> post \<Rightarrow> post \<Rightarrow> bool" where
  "key_order rt c a z =
     (case (sortKey rt (effective_sort c) a, sortKey rt (effective_sort c) z) of
        (Inr ka, Inr kz) \<Rightarrow> if truthy (cfg_ascending c) then js_le ka kz else js_le kz ka
      | _ \<Rightarrow> False)"

text \<open>
  The document as a reader of the heap sees it: each entry of \<^verbatim>\<open>mails\<close> is a collection
  with its configuration and posts, or a list of sections.
\<close>

datatype entry_view =
    Unsectioned config "post list"
  | Sectioned "entry_view list"
  | Dangling

definition view_collection :: "heap \<Rightarrow> ref \<Rightarrow> entry_view" where
  "view_collection h r =
     (case objects h r of
        Some (Collection a c) \<Rightarrow>
          (case arrays h a of Some ps \<Rightarrow> Unsectioned c ps | None \<Rightarrow> Dangling)
      | _ \<Rightarrow> Dangling)"

definition view_entry :: "heap \<Rightarrow> ref \<Rightarrow> entry_view" where
  "view_entry h r =
     (case objects h r of
        Some (Sections rs) \<Rightarrow> Sectioned (map (view_collection h) rs)
      | _ \<Rightarrow> view_collection h r)"

definition view_document :: "error + ref \<times> heap \<Rightarrow> error + jsval \<times> entry_view list" where
  "view_document res =
     (case res of
        Inl e \<Rightarrow> Inl e
      | Inr (d, h) \<Rightarrow>
          (case objects h d of
             Some (Document ms n) \<Rightarrow> Inr (n, map (view_entry h) ms)
           | _ \<Rightarrow> Inl not_an_object))"

text \<open>
  A document as the parser builds it: the document and its collections are allocated
  objects, the collections are distinct objects and no two of them share their array of
  posts.
\<close>

definition collection_array :: "heap \<Rightarrow> ref \<Rightarrow> ref option" where
  "collection_array h m =
     (case objects h m of
        Some (Collection a c) \<Rightarrow>
          if m < next_object h \<and> a < next_array h then Some a else None
      | _ \<Rightarrow> None)"

definition unshared :: "heap \<Rightarrow> ref list \<Rightarrow> bool" where
  "unshared h ms =
     (list_all (\<lambda>m. collection_array h m \<noteq> None) ms
      \<and> distinct (map (collection_array h) ms))"

definition has_sections :: "config \<Rightarrow> bool" where
  "has_sections c = (case cfg_structure c of Structure (e # es) \<Rightarrow> True | _ \<Rightarrow> False)"

definition structure_entries :: "config \<Rightarrow> (string \<times> config) list" where
  "structure_entries c = (case cfg_structure c of Structure kvs \<Rightarrow> kvs | _ \<Rightarrow> [])"

definition section_array :: "heap \<Rightarrow> ref \<Rightarrow> ref option" where
  "section_array h s = (case objects h s of Some (Collection a c) \<Rightarrow> Some a | _ \<Rightarrow> None)"

text \<open>
  A section of the output, for a collection that had the posts \<open>ps\<close>: a collection
  object allocated by the call, with the configuration of its structure key, whose
  \<^verbatim>\<open>posts\<close> is an array allocated by the call. The array holds the result of the three
  stages on the posts of the collection, taken in the order in which the sections
  before it left the shared array.
\<close>

definition section_of ::
  "js_runtime \<Rightarrow> heap \<Rightarrow> heap \<Rightarrow> post list \<Rightarrow> ref \<Rightarrow> string \<times> config \<Rightarrow> bool" where
  "section_of rt h h' ps s kv =
     (next_object h \<le> s \<and> s < next_object h'
      \<and> (case objects h' s of
           Some (Collection a c) \<Rightarrow>
             c = snd kv \<and> next_array h \<le> a \<and> a < next_array h'
             \<and> (case arrays h' a of
                  Some res \<Rightarrow> (\<exists>ps'. mset ps' = mset ps \<and> shaped_posts rt c ps' = Inr res)
                | None \<Rightarrow> False)
         | _ \<Rightarrow> False))"

definition sections_shaped ::
  "js_runtime \<Rightarrow> heap \<Rightarrow> heap \<Rightarrow> post list \<Rightarrow> ref list \<Rightarrow> (string \<times> config) list \<Rightarrow> bool" where
  "sections_shaped rt h h' ps secs kvs =
     (list_all2 (section_of rt h h' ps) secs kvs \<and> distinct (map (section_array h') secs))"

text \<open>
  What the call made of one entry of \<^verbatim>\<open>mails\<close>, between the heap before and the heap
  after: a collection without sections is the same object, its \<^verbatim>\<open>posts\<close> now an array
  allocated by the call that holds the shaped posts; a collection with sections is
  replaced by a sections object allocated by the call, with one section for each key of
  the structure, in the order of the keys, no two sections sharing their array.
\<close>

definition entry_shaped :: "js_runtime \<Rightarrow> heap \<Rightarrow> heap \<Rightarrow> ref \<Rightarrow> ref \<Rightarrow> bool" where
  "entry_shaped rt h h' m m' =
     (case objects h m of
        Some (Collection a c) \<Rightarrow>
          (case arrays h a of
             None \<Rightarrow> False
           | Some ps \<Rightarrow>
               if has_sections c then
                 next_object h \<le> m' \<and> m' < next_object h'
                 \<and> (case objects h' m' of
                      Some (Sections secs) \<Rightarrow>
                        sections_shaped rt h h' ps secs (structure_entries c)
                    | _ \<Rightarrow> False)
               else
                 m' = m
                 \<and> (case objects h' m of
                      Some (Collection a' c') \<Rightarrow>
                        c' = c \<and> next_array h \<le> a' \<and> a' < next_array h'
                        \<and> (case arrays h' a' of
                             Some res \<Rightarrow> shaped_posts rt c ps = Inr res
                           | None \<Rightarrow> False)
                    | _ \<Rightarrow> False))
      | _ \<Rightarrow> False)"

text \<open>
  Example documents. The first is the scenario of the specification: six posts with
  10 to 60 points, the three with the most points kept, in descending order.
\<close>

definition points_posts :: "post list" where
  "points_posts =
     [[(''title'', JStr ''a''), (''points'', JNum (Fin 10))],
      [(''title'', JStr ''b''), (''points'', JNum (Fin 20))],
      [(''title'', JStr ''c''), (''points'', JNum (Fin 30))],
      [(''title'', JStr ''d''), (''points'', JNum (Fin 40))],
      [(''title'', JStr ''e''), (''points'', JNum (Fin 50))],
      [(''title'', JStr ''f''), (''points'', JNum (Fin 60))]]"

definition points_config :: config where
  "points_config =
     Config (JStr ''points'') (JBool False) (JNum (Fin 3)) JUndef JUndef NoStructure"

text \<open>
  Two songs sorted by the difference of two properties, in ascending order: the keys
  are 3 and -3.
\<close>

definition gains_posts :: "post list" where
  "gains_posts =
     [[(''last-week'', JNum (Fin 5)), (''rank'', JNum (Fin 2))],
      [(''last-week'', JNum (Fin 1)), (''rank'', JNum (Fin 4))]]"

definition gains_config :: config where
  "gains_config =
     Config (JArr [JStr ''last-week'', JStr ''-'', JStr ''rank'']) (JBool True) (JNum (Fin 2))
       JUndef JUndef NoStructure"

text \<open>
  Two records of which the first has an infinite value in both properties: its key, the
  difference of the two, is NaN.
\<close>

definition nan_posts :: "post list" where
  "nan_posts =
     [[(''last-week'', JNum PInf), (''rank'', JNum PInf)],
      [(''last-week'', JNum (Fin 2)), (''rank'', JNum (Fin 1))]]"

text \<open>
  A collection of two posts with the same \<^verbatim>\<open>x\<close>, split into a section sorted by
  \<^verbatim>\<open>y\<close> and a section sorted by \<^verbatim>\<open>x\<close>, each keeping one post.
\<close>

definition tie_posts :: "post list" where
  "tie_posts =
     [[(''title'', JStr ''A''), (''x'', JNum (Fin 1)), (''y'', JNum (Fin 2))],
      [(''title'', JStr ''B''), (''x'', JNum (Fin 1)), (''y'', JNum (Fin 1))]]"

definition by_y_config :: config where
  "by_y_config = Config (JStr ''y'') (JBool True) (JNum (Fin 1)) JUndef JUndef NoStructure"

definition by_x_config :: config where
  "by_x_config = Config (JStr ''x'') (JBool True) (JNum (Fin 1)) JUndef JUndef NoStructure"

definition tie_config :: config where
  "tie_config =
     Config JUndef JUndef JUndef JUndef JUndef
       (Structure [(''first'', by_y_config), (''second'', by_x_config)])"

text \<open>A heap that holds one collection and the document of it.\<close>

definition single_heap :: "config \<Rightarrow> post list \<Rightarrow> heap" where
  "single_heap c ps =
     \<lparr>arrays = [0 \<mapsto> ps],
      objects = [0 \<mapsto> Collection 0 c, 1 \<mapsto> Document [0] (JStr ''Daily Digest'')],
      next_array = 1, next_object = 2\<rparr>"

text \<open>A heap that holds a document of two collections, the second with sections.\<close>

definition digest_heap :: heap where
  "digest_heap =
     \<lparr>arrays = [0 \<mapsto> points_posts, 1 \<mapsto> tie_posts],
      objects = [0 \<mapsto> Collection 0 points_config, 1 \<mapsto> Collection 1 tie_config,
                 2 \<mapsto> Document [0, 1] (JStr ''Daily Digest'')],
      next_array = 2, next_object = 3\<rparr>"

section \<open>The expression evaluator\<close>

lemma number_or_zero_coerce: "number_or_zero rt x = coerce_operand rt x"
  by (cases "to_number rt x") (auto simp: number_or_zero_def coerce_operand_def)

text \<open>
  C1. \<^verbatim>\<open>safeEvaluate\<close> raises the invalid-operator error exactly when the operator is not
  one of the four strings \<^verbatim>\<open>+\<close>, \<^verbatim>\<open>-\<close>, \<^verbatim>\<open>*\<close>, \<^verbatim>\<open>/\<close>; for these it returns the sum,
  difference, product or quotient of the operands, each coerced to a number with NaN
  replaced by zero, except that a division by a zero second operand returns zero.
\<close>

theorem safeEvaluate_whitelist_arithmetic:
  "safeEvaluate rt a op b =
     (if op = JStr ''+'' then Inr (js_add (coerce_operand rt a) (coerce_operand rt b))
      else if op = JStr ''-'' then Inr (js_sub (coerce_operand rt a) (coerce_operand rt b))
      else if op = JStr ''*'' then Inr (js_mul (coerce_operand rt a) (coerce_operand rt b))
      else if op = JStr ''/'' then
        Inr (if coerce_operand rt b = Fin 0 then Fin 0
             else js_div (coerce_operand rt a) (coerce_operand rt b))
      else Inl (Error (''Invalid operator: '' @ to_string rt op @
                       ''. Allowed operators: +, -, *, /'')))"
  by (cases op)
     (auto simp: safeEvaluate_def includes_str_def allowedOperators_def
                 number_or_zero_coerce Let_def)

theorem safeEvaluate_whitelist_arithmetic_witness:
  "safeEvaluate example_runtime (JNum (Fin 7)) (JStr ''/'') (JStr ''abc'') = Inr (Fin 0)
   \<and> safeEvaluate example_runtime (JNum (Fin 7)) (JStr ''-'') (JNum (Fin 2)) = Inr (Fin 5)
   \<and> safeEvaluate example_runtime (JNum (Fin 7)) (JStr ''%'') (JNum (Fin 2)) =
       Inl (Error ''Invalid operator: %. Allowed operators: +, -, *, /'')"
  by (simp add: safeEvaluate_whitelist_arithmetic coerce_operand_def example_runtime_def
                js_sub_def is_digit_def)

section \<open>Fetching a property\<close>

text \<open>
  C6 (as the code has it). \<^verbatim>\<open>fetchProp\<close> returns zero when the property name is not a
  string, or the record has no truthy value at that key, or the value converts to NaN;
  in every other case it returns the value converted to a number, which can be an
  infinity.
\<close>

theorem fetchProp_zero_or_number:
  "fetchProp rt data prop =
     (case prop of
        JStr k \<Rightarrow>
          if truthy (get_prop data k) \<and> to_number rt (get_prop data k) \<noteq> NaN
          then to_number rt (get_prop data k) else Fin 0
      | _ \<Rightarrow> Fin 0)"
proof (cases "prop")
  case (JStr k)
  show ?thesis
    by (cases "to_number rt (get_prop data k)") (simp_all add: fetchProp_def JStr)
qed (simp_all add: fetchProp_def)

text \<open>
  An infinite value is returned as it is, where the specification's \<^verbatim>\<open>fetchProp\<close>
  gives zero.
\<close>

theorem fetchProp_infinity_counterexample:
  "fetchProp example_runtime [(''points'', JNum PInf)] (JStr ''points'') = PInf
   \<and> fetchProp_spec example_runtime [(''points'', JNum PInf)] (JStr ''points'') = Fin 0"
  by (simp add: fetchProp_def fetchProp_spec_def get_prop_def is_finite_def)

section \<open>The sort key of other shapes\<close>

lemma insert_by_zero:
  "(\<And>y. cmp x y = Inr (Fin 0)) \<Longrightarrow> insert_by cmp x ys = Inr (x # ys)"
  by (cases ys) simp_all

lemma js_sort_zero:
  "(\<And>x y. cmp x y = Inr (Fin 0)) \<Longrightarrow> js_sort cmp xs = Inr xs"
  by (induction xs) (simp_all add: insert_by_zero)

lemma fetchProp_non_string:
  "\<not> is_string s \<Longrightarrow> fetchProp rt p s = Fin 0"
  by (cases s) (simp_all add: fetchProp_def is_string_def)

lemma sortKey_other_shape:
  "\<not> is_string s \<Longrightarrow> \<not> is_triple s \<Longrightarrow> sortKey rt s p = Inr (Fin 0)"
  by (auto simp: sortKey_def is_triple_def fetchProp_non_string split: jsval.splits list.splits)

text \<open>
  C7 (as the code has it). When \<^verbatim>\<open>config.sort\<close> is truthy and is neither a string nor
  a three-element array, the sort key of every record is zero and the sort leaves the
  posts in their order. When \<^verbatim>\<open>config.sort\<close> is absent (or falsy in another way), the
  code sorts by \<^verbatim>\<open>'points'\<close>: the key of a record is \<^verbatim>\<open>fetchProp(record, 'points')\<close>.
\<close>

theorem sortKey_other_shapes:
  "(truthy (cfg_sort c) \<and> \<not> is_string (cfg_sort c) \<and> \<not> is_triple (cfg_sort c) \<longrightarrow>
      sortKey rt (effective_sort c) p = Inr (Fin 0) \<and> sort_posts rt c ps = Inr ps)
   \<and> (\<not> truthy (cfg_sort c) \<longrightarrow>
      sortKey rt (effective_sort c) p = Inr (fetchProp rt p (JStr ''points'')))"
proof (intro conjI impI)
  assume a: "truthy (cfg_sort c) \<and> \<not> is_string (cfg_sort c) \<and> \<not> is_triple (cfg_sort c)"
  then have k: "\<And>q. sortKey rt (effective_sort c) q = Inr (Fin 0)"
    by (simp add: effective_sort_def sortKey_other_shape)
  show "sortKey rt (effective_sort c) p = Inr (Fin 0)" by (rule k)
  have "\<And>x y. comparator rt (effective_sort c) (cfg_ascending c) x y = Inr (Fin 0)"
    by (simp add: comparator_def k js_sub_def)
  then show "sort_posts rt c ps = Inr ps"
    unfolding sort_posts_def by (rule js_sort_zero)
next
  assume "\<not> truthy (cfg_sort c)"
  then show "sortKey rt (effective_sort c) p = Inr (fetchProp rt p (JStr ''points''))"
    by (simp add: effective_sort_def sortKey_def)
qed

theorem sortKey_other_shapes_witness:
  "sortKey example_runtime
     (effective_sort (Config (JNum (Fin 7)) JUndef JUndef JUndef JUndef NoStructure))
     [(''points'', JNum (Fin 5))] = Inr (Fin 0)
   \<and> sort_posts example_runtime (Config (JNum (Fin 7)) JUndef JUndef JUndef JUndef NoStructure)
        [[(''points'', JNum (Fin 5))], [(''points'', JNum (Fin 9))]]
       = Inr [[(''points'', JNum (Fin 5))], [(''points'', JNum (Fin 9))]]
   \<and> sortKey example_runtime (effective_sort unsorted_config) [(''points'', JNum (Fin 5))]
       = Inr (fetchProp example_runtime [(''points'', JNum (Fin 5))] (JStr ''points''))"
  using sortKey_other_shapes
          [of "Config (JNum (Fin 7)) JUndef JUndef JUndef JUndef NoStructure" example_runtime
              "[(''points'', JNum (Fin 5))]"
              "[[(''points'', JNum (Fin 5))], [(''points'', JNum (Fin 9))]]"]
        sortKey_other_shapes
          [of unsorted_config example_runtime "[(''points'', JNum (Fin 5))]" "[]"]
  by (simp add: is_string_def is_triple_def unsorted_config_def)

text \<open>
  With no \<^verbatim>\<open>sort\<close> option, which is neither a string nor a three-element array, the
  key of a record with five points is five, not zero.
\<close>

theorem sortKey_absent_counterexample:
  "\<not> is_string (cfg_sort unsorted_config) \<and> \<not> is_triple (cfg_sort unsorted_config)
   \<and> sortKey example_runtime (effective_sort unsorted_config) [(''points'', JNum (Fin 5))]
       = Inr (Fin 5)"
  by (simp add: unsorted_config_def is_string_def is_triple_def effective_sort_def sortKey_def
        fetchProp_def get_prop_def)

section \<open>The secure mode of the transport\<close>

text \<open>
  C9. A handler made by \<^verbatim>\<open>init\<close> holds the port as the string the environment gives, and
  \<^verbatim>\<open>this.port === 465\<close> compares it with a number: with \<^verbatim>\<open>PORT=465\<close> the port reaches
  \<^verbatim>\<open>sendMail\<close> as \<^verbatim>\<open>'465'\<close> and the transport is not made secure.
\<close>

theorem init_port_465_not_secure:
  "map_sum id (\<lambda>mh. (port mh, opt_secure (transport_options_of mh)))
     (init ''/app/email-templates'' env465) = Inr (JStr ''465'', False)"
  by (simp add: init_def new_MailHandler_def transport_options_of_def env_get_def Let_def
        env465_def loadConfig_def env_default_def)

text \<open>No environment makes \<^verbatim>\<open>init\<close> give a handler whose transport is secure.\<close>

lemma init_never_secure:
  "init assets e = Inr mh \<Longrightarrow> \<not> opt_secure (transport_options_of mh)"
  by (auto simp: init_def new_MailHandler_def transport_options_of_def env_get_def Let_def
           split: if_splits option.splits)

section \<open>The shape of an address\<close>

text \<open>
  The executable test agrees with the pattern \<^verbatim>\<open>^[^\s@]+@[^\s@]+\.[^\s@]+$\<close> read as a
  statement: the string is three non-empty parts without white space or \<^verbatim>\<open>@\<close>, joined
  by \<^verbatim>\<open>@\<close> and a dot.
\<close>

lemma email_shape_split:
  assumes e: "email_shape s"
  shows "\<exists>a b c. s = a @ ''@'' @ b @ ''.'' @ c \<and> a \<noteq> [] \<and> b \<noteq> [] \<and> c \<noteq> []
        \<and> (\<forall>x \<in> set (a @ b @ c). \<not> is_space x \<and> x \<noteq> CHR ''@'')"
proof -
  define a where "a = takeWhile (\<lambda>c. c \<noteq> CHR ''@'') s"
  define rest where "rest = dropWhile (\<lambda>c. c \<noteq> CHR ''@'') s"
  from e have e': "a \<noteq> [] \<and> rest \<noteq> [] \<and> CHR ''@'' \<notin> set (tl rest)
      \<and> CHR ''.'' \<in> set (butlast (tl (tl rest))) \<and> list_all (\<lambda>c. \<not> is_space c) s"
    unfolding a_def rest_def email_shape_def Let_def .
  then have a0: "a \<noteq> []" and r0: "rest \<noteq> []" and noat: "CHR ''@'' \<notin> set (tl rest)"
    and dot: "CHR ''.'' \<in> set (butlast (tl (tl rest)))"
    by blast+
  from e' have "list_all (\<lambda>c. \<not> is_space c) s"
    by blast
  then have ws: "\<forall>x \<in> set s. \<not> is_space x"
    by (simp add: list_all_iff)
  have s: "s = a @ rest"
    unfolding a_def rest_def by (rule takeWhile_dropWhile_id [symmetric])
  have "\<not> hd rest \<noteq> CHR ''@''"
    using r0 unfolding rest_def by (rule hd_dropWhile)
  then have hdr: "hd rest = CHR ''@''" by simp
  define d where "d = tl rest"
  from r0 hdr have rest: "rest = CHR ''@'' # d" by (cases rest) (simp_all add: d_def)
  from dot have "\<exists>u v. butlast (tl d) = u @ CHR ''.'' # v"
    unfolding d_def by (rule split_list)
  then obtain u v where uv: "butlast (tl d) = u @ CHR ''.'' # v"
    by blast
  then have tne: "tl d \<noteq> []" by auto
  then have td: "tl d = u @ CHR ''.'' # v @ [last (tl d)]"
    using uv append_butlast_last_id [OF tne] by simp
  from tne have dne: "d \<noteq> []" by auto
  define b where "b = hd d # u"
  define c where "c = v @ [last (tl d)]"
  have dd: "d = b @ ''.'' @ c"
    unfolding b_def c_def using td dne by (cases d) simp_all
  have bc: "b \<noteq> []" "c \<noteq> []" by (simp_all add: b_def c_def)
  have aat: "\<forall>x \<in> set a. x \<noteq> CHR ''@''"
    unfolding a_def by (blast dest: set_takeWhileD)
  have dat: "\<forall>x \<in> set d. x \<noteq> CHR ''@''" using noat unfolding d_def by blast
  have sub: "set (a @ b @ c) \<subseteq> set a \<union> set d" by (auto simp: dd)
  have sd: "set a \<union> set d \<subseteq> set s" by (auto simp: s rest)
  have "s = a @ ''@'' @ b @ ''.'' @ c"
    using s rest dd by simp
  moreover have "\<forall>x \<in> set (a @ b @ c). \<not> is_space x \<and> x \<noteq> CHR ''@''"
    using sub sd aat dat ws by blast
  ultimately have "s = a @ ''@'' @ b @ ''.'' @ c \<and> a \<noteq> [] \<and> b \<noteq> [] \<and> c \<noteq> []
        \<and> (\<forall>x \<in> set (a @ b @ c). \<not> is_space x \<and> x \<noteq> CHR ''@'')"
    using a0 bc by (intro conjI)
  then show ?thesis by (intro exI)
qed

lemma email_shape_join:
  assumes s: "s = a @ ''@'' @ b @ ''.'' @ c"
    and ne: "a \<noteq> []" "b \<noteq> []" "c \<noteq> []"
    and ok: "\<forall>x \<in> set (a @ b @ c). \<not> is_space x \<and> x \<noteq> CHR ''@''"
  shows "email_shape s"
proof -
  define p where "p = (\<lambda>c. c \<noteq> CHR ''@'')"
  define t where "t = b @ ''.'' @ c"
  have s': "s = a @ CHR ''@'' # t" by (simp add: s t_def)
  have pa: "\<And>x. x \<in> set a \<Longrightarrow> p x" using ok unfolding p_def by simp
  have np: "\<not> p (CHR ''@'')" by (simp add: p_def)
  have tw: "takeWhile p s = a"
    unfolding s' using pa np by (simp add: takeWhile_append2)
  have dw: "dropWhile p s = CHR ''@'' # t"
    unfolding s' using pa np by (simp add: dropWhile_append2)
  obtain b0 bs where b: "b = b0 # bs" using ne(2) by (cases b) auto
  obtain cs cl where c: "c = cs @ [cl]" using ne(3) by (cases c rule: rev_cases) auto
  have sp: "\<not> is_space (CHR ''@'')" "\<not> is_space (CHR ''.'')" by (simp_all add: is_space_def)
  have "\<forall>x \<in> set s. \<not> is_space x"
  proof
    fix x assume "x \<in> set s"
    then have "x \<in> set (a @ b @ c) \<or> x = CHR ''@'' \<or> x = CHR ''.''"
      unfolding s by auto
    with ok sp show "\<not> is_space x" by blast
  qed
  then have ws: "list_all (\<lambda>c. \<not> is_space c) s" by (simp add: list_all_iff)
  have dot: "CHR ''.'' \<in> set (butlast (tl t))"
    by (simp add: t_def b c butlast_append)
  have "\<forall>x \<in> set t. x = CHR ''.'' \<or> x \<in> set (a @ b @ c)"
    unfolding t_def by auto
  moreover have "CHR ''.'' \<noteq> CHR ''@''" by simp
  ultimately have noat: "CHR ''@'' \<notin> set t" using ok by blast
  have "takeWhile p s \<noteq> [] \<and> dropWhile p s \<noteq> [] \<and> CHR ''@'' \<notin> set (tl (dropWhile p s))
      \<and> CHR ''.'' \<in> set (butlast (tl (tl (dropWhile p s)))) \<and> list_all (\<lambda>c. \<not> is_space c) s"
    using ne(1) dot noat ws by (simp add: tw dw)
  then show ?thesis
    unfolding email_shape_def Let_def p_def .
qed

lemma email_shape_iff:
  "email_shape s \<longleftrightarrow>
     (\<exists>a b c. s = a @ ''@'' @ b @ ''.'' @ c \<and> a \<noteq> [] \<and> b \<noteq> [] \<and> c \<noteq> []
        \<and> (\<forall>x \<in> set (a @ b @ c). \<not> is_space x \<and> x \<noteq> CHR ''@''))"
proof (rule iffI)
  assume "email_shape s"
  then show "\<exists>a b c. s = a @ ''@'' @ b @ ''.'' @ c \<and> a \<noteq> [] \<and> b \<noteq> [] \<and> c \<noteq> []
        \<and> (\<forall>x \<in> set (a @ b @ c). \<not> is_space x \<and> x \<noteq> CHR ''@'')"
    by (rule email_shape_split)
next
  assume "\<exists>a b c. s = a @ ''@'' @ b @ ''.'' @ c \<and> a \<noteq> [] \<and> b \<noteq> [] \<and> c \<noteq> []
        \<and> (\<forall>x \<in> set (a @ b @ c). \<not> is_space x \<and> x \<noteq> CHR ''@'')"
  then show "email_shape s"
    by (elim exE conjE) (rule email_shape_join)
qed

section \<open>Delivery with retries\<close>

lemma sendMail_valid:
  "valid_payload mh email mail name \<Longrightarrow>
   sendMail rt mh tr email mail name w =
     (case tr (transport_options_of mh) \<lparr>opt_to = email, opt_html = mail, opt_subject = name\<rparr>
             (sent w) of
        Some m \<Rightarrow> (Inl (Error (''SMTP error: '' @ m)), w\<lparr>sent := Suc (sent w)\<rparr>)
      | None \<Rightarrow> (Inr (), w\<lparr>sent := Suc (sent w)\<rparr>))"
  by (simp add: sendMail_def valid_payload_def)

text \<open>
  C2 (as the code has it). For a payload that passes the checks of \<^verbatim>\<open>sendMail\<close>,
  \<^verbatim>\<open>sendMailWithRetry\<close> with the default of three attempts, against a transport that
  fails the next three messages, hands the transport exactly three messages, waits 2000
  and then 4000 milliseconds, and raises the error that carries the message of the third
  failure; against a transport that fails the next two messages and accepts the third it
  returns after the third message, having waited the same delays.
\<close>

theorem sendMailWithRetry_three_attempts:
  assumes "valid_payload mh email mail name"
  shows "(tr (transport_options_of mh)
             \<lparr>opt_to = email, opt_html = mail, opt_subject = name\<rparr> (sent w) = Some m0
          \<and> tr (transport_options_of mh)
               \<lparr>opt_to = email, opt_html = mail, opt_subject = name\<rparr> (sent w + 1) = Some m1
          \<and> tr (transport_options_of mh)
               \<lparr>opt_to = email, opt_html = mail, opt_subject = name\<rparr> (sent w + 2) = Some m2
          \<longrightarrow> sendMailWithRetry rt mh tr email mail name None w =
                (Inl (Error (''Failed to send email after 3 attempts: SMTP error: '' @ m2)),
                 w\<lparr>sent := sent w + 3, sleeps := sleeps w @ [2000, 4000]\<rparr>))
       \<and> (tr (transport_options_of mh)
              \<lparr>opt_to = email, opt_html = mail, opt_subject = name\<rparr> (sent w) = Some m0
          \<and> tr (transport_options_of mh)
               \<lparr>opt_to = email, opt_html = mail, opt_subject = name\<rparr> (sent w + 1) = Some m1
          \<and> tr (transport_options_of mh)
               \<lparr>opt_to = email, opt_html = mail, opt_subject = name\<rparr> (sent w + 2) = None
          \<longrightarrow> sendMailWithRetry rt mh tr email mail name None w =
                (Inr (), w\<lparr>sent := sent w + 3, sleeps := sleeps w @ [2000, 4000]\<rparr>))"
  using assms
  by (simp add: sendMailWithRetry_def sendMail_valid numeral_3_eq_3 numeral_2_eq_2)

theorem sendMailWithRetry_three_attempts_witness:
  "valid_payload example_handler (JStr ''janedoe@gmail.com'') (JStr ''<h1>hello world</h1>'')
     (JStr ''testing email'')
   \<and> sendMailWithRetry example_runtime example_handler failing_transport
        (JStr ''janedoe@gmail.com'') (JStr ''<h1>hello world</h1>'') (JStr ''testing email'')
        None \<lparr>sent = 0, sleeps = []\<rparr>
       = (Inl (Error ''Failed to send email after 3 attempts: SMTP error: relay down 2''),
          \<lparr>sent = 3, sleeps = [2000, 4000]\<rparr>)
   \<and> sendMailWithRetry example_runtime example_handler flaky_transport
        (JStr ''janedoe@gmail.com'') (JStr ''<h1>hello world</h1>'') (JStr ''testing email'')
        None \<lparr>sent = 0, sleeps = []\<rparr>
       = (Inr (), \<lparr>sent = 3, sleeps = [2000, 4000]\<rparr>)"
proof -
  have v: "valid_payload example_handler (JStr ''janedoe@gmail.com'')
             (JStr ''<h1>hello world</h1>'') (JStr ''testing email'')"
    by (simp add: valid_payload_def isValidEmail_def email_shape_def trim_def is_space_def
          example_handler_def is_nonempty_string_def)
  show ?thesis
    using v
      sendMailWithRetry_three_attempts
        [OF v, of failing_transport "\<lparr>sent = 0, sleeps = []\<rparr>"
           "''relay down 0''" "''relay down 1''" "''relay down 2''" example_runtime]
      sendMailWithRetry_three_attempts
        [OF v, of flaky_transport "\<lparr>sent = 0, sleeps = []\<rparr>"
           "''connection timed out''" "''connection timed out''" "''none''" example_runtime]
    by (simp add: failing_transport_def flaky_transport_def)
qed

text \<open>
  A payload without a subject (a document that has no \<^verbatim>\<open>name\<close>) fails the check of
  \<^verbatim>\<open>sendMail\<close> at each of the three attempts: against the transport that fails twice
  and then accepts, nothing is handed to the transport, both delays are waited and the
  call raises.
\<close>

theorem sendMailWithRetry_invalid_payload_counterexample:
  "sendMailWithRetry example_runtime example_handler flaky_transport
      (JStr ''janedoe@gmail.com'') (JStr ''<h1>hello world</h1>'') JUndef None
      \<lparr>sent = 0, sleeps = []\<rparr>
   = (Inl (Error (''Failed to send email after 3 attempts: '' @
                  ''Email subject is required and must be a string'')),
      \<lparr>sent = 0, sleeps = [2000, 4000]\<rparr>)"
  by (simp add: sendMailWithRetry_def sendMail_def isValidEmail_def email_shape_def trim_def
        is_space_def example_handler_def is_nonempty_string_def)

section \<open>The batch isolates the failure of a candidate\<close>

lemma process_file_counts:
  assumes "process_file rt mh be tr f (res, w) = (res', w')"
  shows "success res' + failed res' =
           success res + failed res + (if is_candidate rt mh be f then 1 else 0)
         \<and> length (errors res') + failed res =
           length (errors res) + failed res' + (if is_unsafe rt mh be f then 1 else 0)"
  using assms
  by (auto simp: process_file_def is_candidate_def is_unsafe_def record_failure_def
           split: if_splits prod.splits outcome.splits)

lemma process_files_counts:
  "process_files rt mh be tr fs (res, w) = (res', w') \<Longrightarrow>
   success res' + failed res' =
     success res + failed res + length (filter (is_candidate rt mh be) fs)
   \<and> length (errors res') + failed res =
     length (errors res) + failed res' + length (filter (is_unsafe rt mh be) fs)"
proof (induction fs arbitrary: res w)
  case Nil
  then show ?case by (simp add: process_files_def)
next
  case (Cons f fs)
  obtain r1 w1 where s: "process_file rt mh be tr f (res, w) = (r1, w1)"
    by (cases "process_file rt mh be tr f (res, w)")
  with Cons.prems have "process_files rt mh be tr fs (r1, w1) = (res', w')"
    by (simp add: process_files_def)
  from Cons.IH [OF this] process_file_counts [OF s] show ?case by auto
qed

lemma process_file_raised:
  "emailRegex_test f \<Longrightarrow> isSafePath rt mh be f \<Longrightarrow>
   attempt_file rt mh be tr f w = (Raised e, w2) \<Longrightarrow>
   process_file rt mh be tr f (res, w) =
     (res\<lparr>errors := errors res @ [''Failed to process '' @ f @ '': '' @ message e],
          failed := Suc (failed res)\<rparr>, w2)"
  by (simp add: process_file_def record_failure_def)

text \<open>
  C8. For a handler whose data directory is a string, when the directory can be listed,
  \<^verbatim>\<open>start\<close> returns a result: every candidate is counted once, as a success or as a
  failure, and the error list holds one message for each failure and one for each name
  that fails the path check. When the \<^verbatim>\<open>try\<close> block of a candidate raises an
  exception, the failure counter goes up by one, one message that names the file and
  carries the message of the exception is appended, and the files after it are processed
  from that state.
\<close>

theorem start_isolates_candidate_failures:
  assumes "is_string (dataDir mh)" "readdir be = Inr files"
  shows "(\<exists>res w'. start rt mh be tr w = (Inr res, w')
            \<and> success res + failed res = length (filter (is_candidate rt mh be) files)
            \<and> length (errors res) = failed res + length (filter (is_unsafe rt mh be) files))
       \<and> (\<forall>before file after res1 w1 e w2.
            files = before @ file # after \<and> is_candidate rt mh be file
            \<and> process_files rt mh be tr before (empty_result, w) = (res1, w1)
            \<and> attempt_file rt mh be tr file w1 = (Raised e, w2)
            \<longrightarrow> start rt mh be tr w =
                  (case process_files rt mh be tr after
                          (res1\<lparr>errors := errors res1 @
                                  [''Failed to process '' @ file @ '': '' @ message e],
                                failed := Suc (failed res1)\<rparr>, w2) of
                     (res, w') \<Rightarrow> (Inr res, w')))"
proof (intro conjI allI impI)
  obtain res w' where p: "process_files rt mh be tr files (empty_result, w) = (res, w')"
    by (cases "process_files rt mh be tr files (empty_result, w)")
  then have "start rt mh be tr w = (Inr res, w')"
    by (simp add: start_def assms(2) empty_result_def)
  moreover from process_files_counts [OF p]
  have "success res + failed res = length (filter (is_candidate rt mh be) files)"
    and "length (errors res) = failed res + length (filter (is_unsafe rt mh be) files)"
    by (simp_all add: empty_result_def)
  ultimately show "\<exists>res w'. start rt mh be tr w = (Inr res, w')
            \<and> success res + failed res = length (filter (is_candidate rt mh be) files)
            \<and> length (errors res) = failed res + length (filter (is_unsafe rt mh be) files)"
    by blast
next
  fix before f after res1 w1 e w2
  assume a: "files = before @ f # after \<and> is_candidate rt mh be f
            \<and> process_files rt mh be tr before (empty_result, w) = (res1, w1)
            \<and> attempt_file rt mh be tr f w1 = (Raised e, w2)"
  then have "process_files rt mh be tr files (empty_result, w) =
      process_files rt mh be tr after (process_file rt mh be tr f (res1, w1))"
    by (simp add: process_files_def)
  also have "process_file rt mh be tr f (res1, w1) =
     (res1\<lparr>errors := errors res1 @ [''Failed to process '' @ f @ '': '' @ message e],
          failed := Suc (failed res1)\<rparr>, w2)"
    using a by (simp add: process_file_raised is_candidate_def)
  finally show "start rt mh be tr w =
                  (case process_files rt mh be tr after
                          (res1\<lparr>errors := errors res1 @
                                  [''Failed to process '' @ f @ '': '' @ message e],
                                failed := Suc (failed res1)\<rparr>, w2) of
                     (res, w') \<Rightarrow> (Inr res, w'))"
    by (simp add: start_def assms(2) empty_result_def split: prod.splits)
qed

lemmas batch_eval =
  process_files_def process_file_def example_batch_def example_handler_def
  accepting_transport_def emailRegex_test_def strip_prefix_def is_digit_def isSafePath_def
  attempt_file_def isValidEmail_def email_shape_def trim_def is_space_def
  sendMailWithRetry_def sendMail_def is_nonempty_string_def record_failure_def
  is_candidate_def empty_result_def

theorem start_isolates_candidate_failures_witness:
  "is_string (dataDir example_handler)
   \<and> readdir example_batch =
     Inr [''a@x.io-mail-0.yaml'', ''notes.txt'', ''b@x.io-mail-1.yaml'', ''c@x.io-mail-2.yaml'']
   \<and> is_candidate example_runtime example_handler example_batch ''b@x.io-mail-1.yaml''
   \<and> attempt_file example_runtime example_handler example_batch accepting_transport
        ''b@x.io-mail-1.yaml'' \<lparr>sent = 1, sleeps = []\<rparr>
       = (Raised (Error ''Failed to parse YAML file data/b@x.io-mail-1.yaml: bad indentation''),
          \<lparr>sent = 1, sleeps = []\<rparr>)
   \<and> start example_runtime example_handler example_batch accepting_transport
        \<lparr>sent = 0, sleeps = []\<rparr>
       = (Inr \<lparr>success = 2, failed = 1,
               errors = [''Failed to process b@x.io-mail-1.yaml: Failed to parse YAML file data/b@x.io-mail-1.yaml: bad indentation'']\<rparr>,
          \<lparr>sent = 2, sleeps = []\<rparr>)"
proof -
  have d: "is_string (dataDir example_handler)"
    by (simp add: is_string_def example_handler_def)
  have r: "readdir example_batch =
     Inr [''a@x.io-mail-0.yaml'', ''notes.txt'', ''b@x.io-mail-1.yaml'', ''c@x.io-mail-2.yaml'']"
    by (simp add: example_batch_def)
  have c: "is_candidate example_runtime example_handler example_batch ''b@x.io-mail-1.yaml''"
    by (simp add: batch_eval)
  have b: "process_files example_runtime example_handler example_batch accepting_transport
             [''a@x.io-mail-0.yaml'', ''notes.txt''] (empty_result, \<lparr>sent = 0, sleeps = []\<rparr>)
           = (\<lparr>success = 1, failed = 0, errors = []\<rparr>, \<lparr>sent = 1, sleeps = []\<rparr>)"
    by (simp add: batch_eval)
  have a: "attempt_file example_runtime example_handler example_batch accepting_transport
        ''b@x.io-mail-1.yaml'' \<lparr>sent = 1, sleeps = []\<rparr>
       = (Raised (Error ''Failed to parse YAML file data/b@x.io-mail-1.yaml: bad indentation''),
          \<lparr>sent = 1, sleeps = []\<rparr>)"
    by (simp add: batch_eval)
  have "start example_runtime example_handler example_batch accepting_transport
          \<lparr>sent = 0, sleeps = []\<rparr> =
        (case process_files example_runtime example_handler example_batch accepting_transport
                [''c@x.io-mail-2.yaml'']
                (\<lparr>success = 1, failed = 0, errors = []\<rparr>
                   \<lparr>errors := errors \<lparr>success = 1, failed = 0, errors = []\<rparr> @
                      [''Failed to process '' @ ''b@x.io-mail-1.yaml'' @ '': '' @
                       message (Error ''Failed to parse YAML file data/b@x.io-mail-1.yaml: bad indentation'')],
                    failed := Suc (failed \<lparr>success = 1, failed = 0, errors = []\<rparr>)\<rparr>,
                 \<lparr>sent = 1, sleeps = []\<rparr>) of
           (res, w') \<Rightarrow> (Inr res, w'))"
    using start_isolates_candidate_failures
            [OF d r, of example_runtime accepting_transport
               "\<lparr>sent = 0, sleeps = []\<rparr>", THEN conjunct2, rule_format,
             of "[''a@x.io-mail-0.yaml'', ''notes.txt'']" "''b@x.io-mail-1.yaml''"
                "[''c@x.io-mail-2.yaml'']"] c b a
    by simp
  then have "start example_runtime example_handler example_batch accepting_transport
        \<lparr>sent = 0, sleeps = []\<rparr>
       = (Inr \<lparr>success = 2, failed = 1,
               errors = [''Failed to process b@x.io-mail-1.yaml: Failed to parse YAML file data/b@x.io-mail-1.yaml: bad indentation'']\<rparr>,
          \<lparr>sent = 2, sleeps = []\<rparr>)"
    by (simp add: batch_eval)
  with d r c a show ?thesis by simp
qed

text \<open>
  When the directory cannot be listed, it is created and the result is empty; only an
  error of \<^verbatim>\<open>mkdirSync\<close> leaves \<^verbatim>\<open>start\<close> as an exception.
\<close>

lemma start_unlisted:
  "readdir be = Inl e \<Longrightarrow>
   start rt mh be tr w =
     (case mkdir be of Some e' \<Rightarrow> (Inl e', w) | None \<Rightarrow> (Inr empty_result, w))"
  by (simp add: start_def empty_result_def split: option.splits)

section \<open>The engine's sort with the comparator of the program\<close>

lemma js_lt_sub: "a \<noteq> NaN \<Longrightarrow> b \<noteq> NaN \<Longrightarrow> js_lt (Fin 0) (js_sub a b) = js_lt b a"
  by (cases a; cases b) (auto simp: js_sub_def)

lemma js_lt_not_le: "a \<noteq> NaN \<Longrightarrow> b \<noteq> NaN \<Longrightarrow> js_lt b a = (\<not> js_le a b)"
  by (cases a; cases b) auto

lemma js_le_total: "a \<noteq> NaN \<Longrightarrow> b \<noteq> NaN \<Longrightarrow> \<not> js_le a b \<Longrightarrow> js_le b a"
  by (cases a; cases b) auto

lemma js_le_trans: "js_le a b \<Longrightarrow> js_le b c \<Longrightarrow> js_le a c"
  by (cases a; cases b; cases c) auto

lemma insert_by_length:
  "insert_by cmp x ys = Inr r \<Longrightarrow> length r = Suc (length ys)"
  by (induction ys arbitrary: r) (auto split: sum.splits if_splits)

lemma js_sort_length: "js_sort cmp xs = Inr ys \<Longrightarrow> length ys = length xs"
  by (induction xs arbitrary: ys) (auto split: sum.splits dest: insert_by_length)

lemma insert_by_mset:
  "insert_by cmp x ys = Inr r \<Longrightarrow> mset r = add_mset x (mset ys)"
  by (induction ys arbitrary: r) (auto split: sum.splits if_splits)

lemma js_sort_mset: "js_sort cmp xs = Inr ys \<Longrightarrow> mset ys = mset xs"
  by (induction xs arbitrary: ys) (auto split: sum.splits dest: insert_by_mset)

lemma insert_by_sorted:
  assumes cmp: "\<And>y. y \<in> set ys \<Longrightarrow> \<exists>v. cmp x y = Inr v \<and> (js_lt (Fin 0) v \<longleftrightarrow> \<not> R x y)"
      and tot: "\<And>y. y \<in> set ys \<Longrightarrow> \<not> R x y \<Longrightarrow> R y x"
      and trans: "\<And>y z. R x y \<Longrightarrow> R y z \<Longrightarrow> R x z"
      and sorted: "sorted_wrt R ys"
  shows "\<exists>r. insert_by cmp x ys = Inr r \<and> sorted_wrt R r \<and> set r = insert x (set ys)"
  using cmp tot sorted
proof (induction ys)
  case Nil
  show ?case by simp
next
  case (Cons y ys)
  have "\<exists>v. cmp x y = Inr v \<and> (js_lt (Fin 0) v \<longleftrightarrow> \<not> R x y)"
    by (rule Cons.prems(1)) simp
  then obtain v where v: "cmp x y = Inr v" and gt: "js_lt (Fin 0) v \<longleftrightarrow> \<not> R x y"
    by blast
  have sy: "\<forall>z \<in> set ys. R y z" and sys: "sorted_wrt R ys"
    using Cons.prems(3) by simp_all
  show ?case
  proof (cases "R x y")
    case True
    have "\<forall>z \<in> set ys. R x z"
      using sy True trans by blast
    with True sy sys have "sorted_wrt R (x # y # ys)" by simp
    moreover have "insert_by cmp x (y # ys) = Inr (x # y # ys)"
      using v gt True by simp
    ultimately show ?thesis by simp
  next
    case False
    have "\<exists>r. insert_by cmp x ys = Inr r \<and> sorted_wrt R r \<and> set r = insert x (set ys)"
    proof (rule Cons.IH)
      fix z assume "z \<in> set ys"
      then have z: "z \<in> set (y # ys)" by simp
      show "\<exists>v. cmp x z = Inr v \<and> (js_lt (Fin 0) v \<longleftrightarrow> \<not> R x z)"
        by (rule Cons.prems(1) [OF z])
      show "\<not> R x z \<Longrightarrow> R z x"
        by (rule Cons.prems(2) [OF z])
    next
      show "sorted_wrt R ys" by (rule sys)
    qed
    then obtain r where r: "insert_by cmp x ys = Inr r" "sorted_wrt R r"
        "set r = insert x (set ys)"
      by blast
    have "R y x" by (rule Cons.prems(2)) (simp_all add: False)
    with r sy have "sorted_wrt R (y # r)" by simp
    moreover have "insert_by cmp x (y # ys) = Inr (y # r)"
      using v gt False r(1) by simp
    moreover have "set (y # r) = insert x (set (y # ys))"
      using r(3) by auto
    ultimately show ?thesis by blast
  qed
qed

lemma js_sort_sorted:
  assumes cmp: "\<And>x y. x \<in> set xs \<Longrightarrow> y \<in> set xs \<Longrightarrow>
                  \<exists>v. cmp x y = Inr v \<and> (js_lt (Fin 0) v \<longleftrightarrow> \<not> R x y)"
      and tot: "\<And>x y. x \<in> set xs \<Longrightarrow> y \<in> set xs \<Longrightarrow> \<not> R x y \<Longrightarrow> R y x"
      and trans: "\<And>x y z. R x y \<Longrightarrow> R y z \<Longrightarrow> R x z"
  shows "\<exists>ys. js_sort cmp xs = Inr ys \<and> sorted_wrt R ys \<and> set ys = set xs"
  using cmp tot
proof (induction xs)
  case Nil
  show ?case by simp
next
  case (Cons x xs)
  have "\<exists>ys. js_sort cmp xs = Inr ys \<and> sorted_wrt R ys \<and> set ys = set xs"
  proof (rule Cons.IH)
    fix a b assume "a \<in> set xs" "b \<in> set xs"
    then have ab: "a \<in> set (x # xs)" "b \<in> set (x # xs)" by simp_all
    show "\<exists>v. cmp a b = Inr v \<and> (js_lt (Fin 0) v \<longleftrightarrow> \<not> R a b)"
      by (rule Cons.prems(1) [OF ab])
    show "\<not> R a b \<Longrightarrow> R b a"
      by (rule Cons.prems(2) [OF ab])
  qed
  then obtain ys where ys: "js_sort cmp xs = Inr ys" "sorted_wrt R ys" "set ys = set xs"
    by blast
  have "\<exists>r. insert_by cmp x ys = Inr r \<and> sorted_wrt R r \<and> set r = insert x (set ys)"
  proof (rule insert_by_sorted)
    fix y assume "y \<in> set ys"
    with ys(3) have y: "y \<in> set (x # xs)" by simp
    have x: "x \<in> set (x # xs)" by simp
    show "\<exists>v. cmp x y = Inr v \<and> (js_lt (Fin 0) v \<longleftrightarrow> \<not> R x y)"
      by (rule Cons.prems(1) [OF x y])
    show "\<not> R x y \<Longrightarrow> R y x"
      by (rule Cons.prems(2) [OF x y])
  next
    fix y z show "R x y \<Longrightarrow> R y z \<Longrightarrow> R x z" by (rule trans)
  next
    show "sorted_wrt R ys" by (rule ys(2))
  qed
  then obtain r where r: "insert_by cmp x ys = Inr r" "sorted_wrt R r"
      "set r = insert x (set ys)"
    by blast
  have "js_sort cmp (x # xs) = Inr r" using ys(1) r(1) by simp
  moreover have "set r = set (x # xs)" using r(3) ys(3) by simp
  ultimately show ?case using r(2) by blast
qed

text \<open>The comparator fails for every pair or for none.\<close>

lemma sortKey_uniform: "sortKey rt s p = Inl e \<Longrightarrow> sortKey rt s q = Inl e"
  by (auto simp: sortKey_def safeEvaluate_def Let_def split: jsval.splits list.splits if_splits)

lemma comparator_uniform:
  assumes "sortKey rt s p = Inl e"
  shows "comparator rt s asc x y = Inl e"
proof -
  from assms have "sortKey rt s x = Inl e" by (rule sortKey_uniform)
  then show ?thesis by (simp add: comparator_def)
qed

lemma js_sort_calls_comparator:
  assumes "js_sort cmp xs = Inr ys" "2 \<le> length xs"
  shows "\<exists>x y v. cmp x y = Inr v"
proof -
  from assms(2) obtain x x' xs' where xs: "xs = x # x' # xs'"
    by (cases xs; cases "tl xs") auto
  with assms(1) obtain r where r: "js_sort cmp (x' # xs') = Inr r" "insert_by cmp x r = Inr ys"
    by (auto split: sum.splits)
  from js_sort_length [OF r(1)] obtain y r' where "r = y # r'" by (cases r) auto
  with r(2) show ?thesis by (auto split: sum.splits)
qed

lemma sort_posts_keys:
  assumes "sort_posts rt c fs = Inr ss" "2 \<le> length fs"
  shows "\<exists>k. sortKey rt (effective_sort c) p = Inr k"
proof (cases "sortKey rt (effective_sort c) p")
  case (Inl e)
  from js_sort_calls_comparator [OF assms(1) [unfolded sort_posts_def] assms(2)]
  obtain x y v where "comparator rt (effective_sort c) (cfg_ascending c) x y = Inr v"
    by blast
  with comparator_uniform [OF Inl, of "cfg_ascending c" x y] show ?thesis by simp
qed simp

lemma key_order_trans: "key_order rt c x y \<Longrightarrow> key_order rt c y z \<Longrightarrow> key_order rt c x z"
  by (auto simp: key_order_def split: sum.splits if_splits intro: js_le_trans)

lemma sort_posts_sorted:
  assumes ss: "sort_posts rt c fs = Inr ss" and len: "2 \<le> length fs"
      and nan: "\<And>p. p \<in> set fs \<Longrightarrow> sortKey rt (effective_sort c) p \<noteq> Inr NaN"
  shows "sorted_wrt (key_order rt c) ss \<and> set ss = set fs"
proof -
  have k: "\<And>p. \<exists>k. sortKey rt (effective_sort c) p = Inr k"
    using sort_posts_keys [OF ss len] .
  have "\<exists>ys. js_sort (comparator rt (effective_sort c) (cfg_ascending c)) fs = Inr ys
          \<and> sorted_wrt (key_order rt c) ys \<and> set ys = set fs"
  proof (rule js_sort_sorted)
    fix x y assume xy: "x \<in> set fs" "y \<in> set fs"
    from k [of x] k [of y] obtain kx ky where
      kk: "sortKey rt (effective_sort c) x = Inr kx" "sortKey rt (effective_sort c) y = Inr ky"
      by blast
    with nan [OF xy(1)] nan [OF xy(2)] have n: "kx \<noteq> NaN" "ky \<noteq> NaN" by auto
    show "\<exists>v. comparator rt (effective_sort c) (cfg_ascending c) x y = Inr v
            \<and> (js_lt (Fin 0) v \<longleftrightarrow> \<not> key_order rt c x y)"
      using kk n by (simp add: comparator_def key_order_def js_lt_sub js_lt_not_le)
    show "\<not> key_order rt c x y \<Longrightarrow> key_order rt c y x"
      using kk n by (auto simp: key_order_def dest: js_le_total)
  next
    fix x y z show "key_order rt c x y \<Longrightarrow> key_order rt c y z \<Longrightarrow> key_order rt c x z"
      by (rule key_order_trans)
  qed
  with ss show ?thesis by (simp add: sort_posts_def)
qed

lemma js_slice0_take: "\<exists>m. js_slice0 rt xs cnt = take m xs"
proof (cases "to_number rt cnt")
  case PInf
  then have "js_slice0 rt xs cnt = take (length xs) xs" by (simp add: js_slice0_def)
  then show ?thesis by blast
next
  case NInf
  then have "js_slice0 rt xs cnt = take 0 xs" by (simp add: js_slice0_def)
  then show ?thesis by blast
next
  case NaN
  then have "js_slice0 rt xs cnt = take 0 xs" by (simp add: js_slice0_def)
  then show ?thesis by blast
qed (auto simp: js_slice0_def Let_def)

lemma sortAndSlicePost_result:
  assumes "objects h r = Some (Collection pa c)" "arrays h pa = Some ps"
  shows "(case filter_posts rt c ps of
            Inl e \<Rightarrow> sortAndSlicePost rt r h = Inl e
          | Inr fs \<Rightarrow>
              (case sort_posts rt c fs of
                 Inl e \<Rightarrow> sortAndSlicePost rt r h = Inl e
               | Inr ss \<Rightarrow>
                   (\<exists>h'. sortAndSlicePost rt r h = Inr (r, h')
                      \<and> posts_of h' r = Some (js_slice0 rt ss (effective_count c)))))"
  using assms
  by (auto simp: sortAndSlicePost_def alloc_array_def set_posts_def posts_of_def Let_def
           split: sum.splits)

section \<open>\<^verbatim>\<open>sortAndSlicePost\<close> on the heap\<close>

lemma sortAndSlicePost_explicit:
  assumes "objects h r = Some (Collection pa c)" "arrays h pa = Some ps"
      and "filter_posts rt c ps = Inr fs" "sort_posts rt c fs = Inr ss"
  shows "sortAndSlicePost rt r h =
           Inr (r,
             if truthy (cfg_property c) \<and> truthy (cfg_value c) then
               h\<lparr>arrays := (arrays h)(next_array h \<mapsto> ss,
                                       Suc (next_array h) \<mapsto> js_slice0 rt ss (effective_count c)),
                 objects := (objects h)(r \<mapsto> Collection (Suc (next_array h)) c),
                 next_array := Suc (Suc (next_array h))\<rparr>
             else
               h\<lparr>arrays := (arrays h)(pa \<mapsto> ss,
                                       next_array h \<mapsto> js_slice0 rt ss (effective_count c)),
                 objects := (objects h)(r \<mapsto> Collection (next_array h) c),
                 next_array := Suc (next_array h)\<rparr>)"
  using assms
  by (simp add: sortAndSlicePost_def alloc_array_def set_posts_def Let_def)

lemma sortAndSlicePost_Inr:
  assumes "sortAndSlicePost rt r h = Inr x"
  shows "\<exists>pa c ps fs ss. objects h r = Some (Collection pa c) \<and> arrays h pa = Some ps
           \<and> filter_posts rt c ps = Inr fs \<and> sort_posts rt c fs = Inr ss"
proof (cases "objects h r")
  case None
  with assms show ?thesis by (simp add: sortAndSlicePost_def)
next
  case (Some ob)
  show ?thesis
  proof (cases ob)
    case (Collection pa c)
    note o = Some [unfolded Collection]
    show ?thesis
    proof (cases "arrays h pa")
      case None
      with assms o show ?thesis by (simp add: sortAndSlicePost_def)
    next
      case ps: (Some ps)
      show ?thesis
      proof (cases "filter_posts rt c ps")
        case (Inl e)
        with assms o ps show ?thesis by (simp add: sortAndSlicePost_def)
      next
        case fs: (Inr fs)
        show ?thesis
        proof (cases "sort_posts rt c fs")
          case (Inl e)
          with assms o ps fs show ?thesis
            by (simp add: sortAndSlicePost_def split: prod.splits)
        next
          case (Inr ss)
          with o ps fs show ?thesis by simp
        qed
      qed
    qed
  next
    case (Sections x)
    with assms Some show ?thesis by (simp add: sortAndSlicePost_def)
  next
    case (Document x y)
    with assms Some show ?thesis by (simp add: sortAndSlicePost_def)
  qed
qed

text \<open>What a successful call of \<^verbatim>\<open>sortAndSlicePost\<close> changes in the heap.\<close>

lemma sortAndSlicePost_frame:
  assumes run: "sortAndSlicePost rt r h = Inr (r', h')"
      and obj: "objects h r = Some (Collection pa c)"
  shows "r' = r"
    and "next_object h' = next_object h"
    and "next_array h < next_array h'"
    and "\<And>q. q \<noteq> r \<Longrightarrow> objects h' q = objects h q"
    and "\<And>a. a < next_array h \<Longrightarrow> a \<noteq> pa \<Longrightarrow> arrays h' a = arrays h a"
    and "arrays h' pa \<noteq> None"
    and "\<exists>a' ps res. objects h' r = Some (Collection a' c) \<and> next_array h \<le> a'
           \<and> a' < next_array h' \<and> arrays h pa = Some ps \<and> arrays h' a' = Some res
           \<and> shaped_posts rt c ps = Inr res"
proof -
  from sortAndSlicePost_Inr [OF run] obj obtain ps fs ss where st: "arrays h pa = Some ps"
    "filter_posts rt c ps = Inr fs" "sort_posts rt c fs = Inr ss"
    by auto
  note ex = sortAndSlicePost_explicit [OF obj st]
  from run ex show "r' = r" by simp
  from run ex show "next_object h' = next_object h" by (auto split: if_splits)
  from run ex show "next_array h < next_array h'" by (auto split: if_splits)
  from run ex show "\<And>q. q \<noteq> r \<Longrightarrow> objects h' q = objects h q" by (auto split: if_splits)
  from run ex show "\<And>a. a < next_array h \<Longrightarrow> a \<noteq> pa \<Longrightarrow> arrays h' a = arrays h a"
    by (auto split: if_splits)
  from run ex st(1) show "arrays h' pa \<noteq> None" by (auto split: if_splits)
  have sh: "shaped_posts rt c ps = Inr (js_slice0 rt ss (effective_count c))"
    by (simp add: shaped_posts_def st)
  from run ex st(1) sh
  show "\<exists>a' ps res. objects h' r = Some (Collection a' c) \<and> next_array h \<le> a'
           \<and> a' < next_array h' \<and> arrays h pa = Some ps \<and> arrays h' a' = Some res
           \<and> shaped_posts rt c ps = Inr res"
    by (auto split: if_splits)
qed

text \<open>The array the collection referred to holds the same posts afterwards.\<close>

lemma sortAndSlicePost_shared_array:
  assumes run: "sortAndSlicePost rt r h = Inr (r', h')"
      and obj: "objects h r = Some (Collection pa c)" and pb: "pa < next_array h"
      and ps: "arrays h pa = Some ps"
  shows "\<exists>ps2. arrays h' pa = Some ps2 \<and> mset ps2 = mset ps"
proof -
  from sortAndSlicePost_Inr [OF run] obj ps obtain fs ss where
    st: "filter_posts rt c ps = Inr fs" "sort_posts rt c fs = Inr ss"
    by auto
  note ex = sortAndSlicePost_explicit [OF obj ps st]
  show ?thesis
  proof (cases "truthy (cfg_property c) \<and> truthy (cfg_value c)")
    case True
    with run ex pb ps show ?thesis by auto
  next
    case False
    then have "fs = ps" using st(1) by (auto simp: filter_posts_def)
    with st(2) have "mset ss = mset ps"
      by (auto simp: sort_posts_def dest: js_sort_mset)
    with False run ex pb show ?thesis by auto
  qed
qed

lemma returned_posts_sortAndSlicePost:
  assumes "objects h r = Some (Collection pa c)" "arrays h pa = Some ps"
  shows "returned_posts (sortAndSlicePost rt r h) = shaped_posts rt c ps"
proof (cases "filter_posts rt c ps")
  case (Inl e)
  with assms show ?thesis
    by (simp add: sortAndSlicePost_def shaped_posts_def returned_posts_def)
next
  case fs: (Inr fs)
  show ?thesis
  proof (cases "sort_posts rt c fs")
    case (Inl e)
    with assms fs show ?thesis
      by (simp add: sortAndSlicePost_def shaped_posts_def returned_posts_def split: prod.splits)
  next
    case (Inr ss)
    from sortAndSlicePost_explicit [OF assms fs Inr] fs Inr show ?thesis
      by (simp add: shaped_posts_def returned_posts_def posts_of_def)
  qed
qed

lemma slice_count_is: "count_is c n \<Longrightarrow> js_slice0 rt ss (effective_count c) = take n ss"
  by (auto simp: count_is_def js_slice0_def effective_count_def Let_def)

lemma filter_posts_subset: "filter_posts rt c ps = Inr fs \<Longrightarrow> set fs \<subseteq> set ps"
  by (auto simp: filter_posts_def split: if_splits sum.splits)

lemma sort_posts_length: "sort_posts rt c fs = Inr ss \<Longrightarrow> length ss = length fs"
  by (auto simp: sort_posts_def dest: js_sort_length)

lemmas post_eval =
  sort_posts_def filter_posts_def shaped_posts_def effective_sort_def effective_count_def
  comparator_def sortKey_def fetchProp_def get_prop_def js_sub_def js_slice0_def
  safeEvaluate_def includes_str_def allowedOperators_def number_or_zero_def

lemmas heap_eval =
  transformPosts_def shape_collection_def sortAndSlicePost_def alloc_array_def
  alloc_object_def set_posts_def set_mails_def posts_of_def returned_posts_def
  view_document_def view_entry_def view_collection_def single_heap_def

text \<open>
  C4. For a collection whose \<^verbatim>\<open>config.count\<close> is a positive integer \<open>n\<close> (or is absent,
  and \<open>n\<close> is 6), \<^verbatim>\<open>sortAndSlicePost\<close> raises what the filter or the sort raises, and
  otherwise returns the collection with the first \<open>n\<close> posts of the sorted order: their
  number is the smaller of \<open>n\<close> and the number of posts the filter keeps.
\<close>

theorem sortAndSlicePost_length:
  assumes "objects h r = Some (Collection pa c)" "arrays h pa = Some ps" "count_is c n"
  shows "returned_posts (sortAndSlicePost rt r h) =
           (case filter_posts rt c ps of
              Inl e \<Rightarrow> Inl e
            | Inr fs \<Rightarrow>
                (case sort_posts rt c fs of
                   Inl e \<Rightarrow> Inl e
                 | Inr ss \<Rightarrow> Inr (take n ss)))
         \<and> (\<forall>res. returned_posts (sortAndSlicePost rt r h) = Inr res \<longrightarrow>
               (\<exists>fs. filter_posts rt c ps = Inr fs \<and> length res = min n (length fs)))"
proof -
  have eq: "returned_posts (sortAndSlicePost rt r h) =
           (case filter_posts rt c ps of
              Inl e \<Rightarrow> Inl e
            | Inr fs \<Rightarrow>
                (case sort_posts rt c fs of
                   Inl e \<Rightarrow> Inl e
                 | Inr ss \<Rightarrow> Inr (take n ss)))"
    by (simp add: returned_posts_sortAndSlicePost [OF assms(1,2)] shaped_posts_def
          slice_count_is [OF assms(3)] split: sum.splits)
  have "\<forall>res. returned_posts (sortAndSlicePost rt r h) = Inr res \<longrightarrow>
               (\<exists>fs. filter_posts rt c ps = Inr fs \<and> length res = min n (length fs))"
    unfolding eq by (auto split: sum.splits dest: sort_posts_length)
  with eq show ?thesis by blast
qed

theorem sortAndSlicePost_length_witness:
  "count_is points_config 3
   \<and> filter_posts example_runtime points_config points_posts = Inr points_posts
   \<and> returned_posts (sortAndSlicePost example_runtime 0 (single_heap points_config points_posts))
       = Inr [[(''title'', JStr ''f''), (''points'', JNum (Fin 60))],
              [(''title'', JStr ''e''), (''points'', JNum (Fin 50))],
              [(''title'', JStr ''d''), (''points'', JNum (Fin 40))]]"
proof -
  have c: "count_is points_config 3"
    by (simp add: count_is_def points_config_def)
  have o: "objects (single_heap points_config points_posts) 0 = Some (Collection 0 points_config)"
    and a: "arrays (single_heap points_config points_posts) 0 = Some points_posts"
    by (simp_all add: single_heap_def)
  have f: "filter_posts example_runtime points_config points_posts = Inr points_posts"
    by (simp add: filter_posts_def points_config_def)
  have s: "sort_posts example_runtime points_config points_posts = Inr (rev points_posts)"
    by (simp add: post_eval points_config_def points_posts_def)
  from sortAndSlicePost_length [OF o a c, of example_runtime, THEN conjunct1] c f
  show ?thesis
    by (simp add: s) (simp add: points_posts_def)
qed

text \<open>
  Keys that are never NaN: the key of a single property, and the key of a
  three-element array on a record whose two properties are finite.
\<close>

lemma fetchProp_not_NaN: "fetchProp rt p s \<noteq> NaN"
  by (cases "s"; cases "to_number rt (get_prop p (case s of JStr k \<Rightarrow> k | _ \<Rightarrow> []))")
     (auto simp: fetchProp_def Let_def)

lemma sortKey_single_not_NaN: "\<not> is_triple s \<Longrightarrow> sortKey rt s p \<noteq> Inr NaN"
  by (auto simp: sortKey_def is_triple_def fetchProp_not_NaN split: jsval.splits list.splits)

lemma sortKey_finite_not_NaN:
  assumes "is_finite (fetchProp rt p fo)" "is_finite (fetchProp rt p so)"
  shows "sortKey rt (JArr [fo, op, so]) p \<noteq> Inr NaN"
proof -
  from assms obtain a b where ab: "fetchProp rt p fo = Fin a" "fetchProp rt p so = Fin b"
    by (auto simp: is_finite_def split: jsnum.splits)
  show ?thesis
    by (simp add: sortKey_def safeEvaluate_def includes_str_def allowedOperators_def
          number_or_zero_def ab js_sub_def Let_def)
qed

text \<open>
  C5 (as the code has it). When no record of the collection has the key NaN, every
  record of the list \<^verbatim>\<open>sortAndSlicePost\<close> returns and the record after it have keys, and
  the two keys compare with \<^verbatim>\<open><=\<close> when \<^verbatim>\<open>config.ascending\<close> is truthy and with
  \<^verbatim>\<open>>=\<close> otherwise.
\<close>

theorem sortAndSlicePost_ordered:
  assumes "objects h r = Some (Collection pa c)" "arrays h pa = Some ps"
      and "list_all (\<lambda>p. sortKey rt (effective_sort c) p \<noteq> Inr NaN) ps"
      and "returned_posts (sortAndSlicePost rt r h) = Inr res"
      and "Suc i < length res"
  shows "key_order rt c (res ! i) (res ! Suc i)"
proof -
  from assms(4) have "shaped_posts rt c ps = Inr res"
    by (simp add: returned_posts_sortAndSlicePost [OF assms(1,2)])
  then obtain fs ss where fs: "filter_posts rt c ps = Inr fs"
    and ss: "sort_posts rt c fs = Inr ss"
    and res: "res = js_slice0 rt ss (effective_count c)"
    by (auto simp: shaped_posts_def split: sum.splits)
  from js_slice0_take [of rt ss "effective_count c"] res obtain m where m: "res = take m ss"
    by auto
  from m assms(5) sort_posts_length [OF ss] have len: "2 \<le> length fs" by simp
  have "\<And>p. p \<in> set fs \<Longrightarrow> sortKey rt (effective_sort c) p \<noteq> Inr NaN"
    using filter_posts_subset [OF fs] assms(3) by (auto simp: list_all_iff)
  from sort_posts_sorted [OF ss len this] have "sorted_wrt (key_order rt c) ss" by simp
  then have "sorted_wrt (key_order rt c) res"
    unfolding m by (rule sorted_wrt_take)
  then show ?thesis
    using assms(5) by (simp add: sorted_wrt_nth_less)
qed

theorem sortAndSlicePost_ordered_witness:
  "list_all (\<lambda>p. sortKey example_runtime (effective_sort gains_config) p \<noteq> Inr NaN) gains_posts
   \<and> returned_posts (sortAndSlicePost example_runtime 0 (single_heap gains_config gains_posts))
       = Inr [[(''last-week'', JNum (Fin 1)), (''rank'', JNum (Fin 4))],
              [(''last-week'', JNum (Fin 5)), (''rank'', JNum (Fin 2))]]
   \<and> key_order example_runtime gains_config
        [(''last-week'', JNum (Fin 1)), (''rank'', JNum (Fin 4))]
        [(''last-week'', JNum (Fin 5)), (''rank'', JNum (Fin 2))]
   \<and> sortKey example_runtime (effective_sort gains_config)
        [(''last-week'', JNum (Fin 1)), (''rank'', JNum (Fin 4))] = Inr (Fin (- 3))"
proof -
  have o: "objects (single_heap gains_config gains_posts) 0 = Some (Collection 0 gains_config)"
    and a: "arrays (single_heap gains_config gains_posts) 0 = Some gains_posts"
    by (simp_all add: single_heap_def)
  have n: "list_all (\<lambda>p. sortKey example_runtime (effective_sort gains_config) p \<noteq> Inr NaN)
             gains_posts"
    by (simp add: post_eval gains_config_def gains_posts_def)
  have r: "returned_posts (sortAndSlicePost example_runtime 0 (single_heap gains_config gains_posts))
       = Inr [[(''last-week'', JNum (Fin 1)), (''rank'', JNum (Fin 4))],
              [(''last-week'', JNum (Fin 5)), (''rank'', JNum (Fin 2))]]"
    by (simp add: returned_posts_sortAndSlicePost [OF o a])
       (simp add: post_eval gains_config_def gains_posts_def)
  have k: "sortKey example_runtime (effective_sort gains_config)
        [(''last-week'', JNum (Fin 1)), (''rank'', JNum (Fin 4))] = Inr (Fin (- 3))"
    by (simp add: post_eval gains_config_def)
  from sortAndSlicePost_ordered [OF o a n r, of 0] n r k show ?thesis by simp
qed

text \<open>
  With an infinite value in both properties of a record, the key of the record is NaN:
  the record stays in front of a record of key 1 in the ascending order, and NaN \<^verbatim>\<open><=\<close> 1
  is false.
\<close>

theorem sortAndSlicePost_nan_counterexample:
  "returned_posts (sortAndSlicePost example_runtime 0 (single_heap gains_config nan_posts))
     = Inr [[(''last-week'', JNum PInf), (''rank'', JNum PInf)],
            [(''last-week'', JNum (Fin 2)), (''rank'', JNum (Fin 1))]]
   \<and> truthy (cfg_ascending gains_config)
   \<and> sortKey example_runtime (effective_sort gains_config)
        [(''last-week'', JNum PInf), (''rank'', JNum PInf)] = Inr NaN
   \<and> sortKey example_runtime (effective_sort gains_config)
        [(''last-week'', JNum (Fin 2)), (''rank'', JNum (Fin 1))] = Inr (Fin 1)
   \<and> \<not> js_le NaN (Fin 1)"
  by (simp add: heap_eval post_eval gains_config_def nan_posts_def)

section \<open>\<^verbatim>\<open>transformPosts\<close> on the heap\<close>

text \<open>The loop over the structure keys leaves every object it was given as it was.\<close>

lemma sections_loop_frame:
  assumes "sections_loop rt p kvs h = Inr (secs, h')"
      and "objects h p = Some (Collection pa c0)" "p < next_object h"
  shows "next_object h \<le> next_object h' \<and> next_array h \<le> next_array h'
         \<and> (\<forall>q. q < next_object h \<longrightarrow> objects h' q = objects h q)
         \<and> (\<forall>a. a < next_array h \<longrightarrow> a \<noteq> pa \<longrightarrow> arrays h' a = arrays h a)
         \<and> length secs = length kvs"
  using assms
proof (induction kvs arbitrary: h secs)
  case Nil
  then show ?case by simp
next
  case (Cons kv rest)
  obtain k cfg where kv: "kv = (k, cfg)" by (cases kv)
  define h1 where "h1 = h\<lparr>objects := (objects h)(next_object h \<mapsto> Collection pa cfg),
                           next_object := Suc (next_object h)\<rparr>"
  from Cons.prems(1) kv Cons.prems(2)
  obtain tp h2 sa where
    run: "sortAndSlicePost rt (next_object h) h1 = Inr (tp, h2)"
    and rest: "sections_loop rt p rest h2 = Inr (sa, h')"
    and secs: "secs = tp # sa"
    by (auto simp: alloc_object_def h1_def split: sum.splits)
  have o1: "objects h1 (next_object h) = Some (Collection pa cfg)"
    by (simp add: h1_def)
  note f = sortAndSlicePost_frame [OF run o1]
  have no: "next_object h2 = Suc (next_object h)" using f(2) by (simp add: h1_def)
  have na: "next_array h < next_array h2" using f(3) by (simp add: h1_def)
  have ob: "\<And>q. q < next_object h \<Longrightarrow> objects h2 q = objects h q"
    using f(4) by (simp add: h1_def)
  have ar: "\<And>a. a < next_array h \<Longrightarrow> a \<noteq> pa \<Longrightarrow> arrays h2 a = arrays h a"
    using f(5) by (simp add: h1_def)
  have p2: "objects h2 p = Some (Collection pa c0)"
    using ob [OF Cons.prems(3)] Cons.prems(2) by simp
  have "p < next_object h2" using Cons.prems(3) no by simp
  from Cons.IH [OF rest p2 this]
  have ih: "next_object h2 \<le> next_object h'" "next_array h2 \<le> next_array h'"
    "\<And>q. q < next_object h2 \<Longrightarrow> objects h' q = objects h2 q"
    "\<And>a. a < next_array h2 \<Longrightarrow> a \<noteq> pa \<Longrightarrow> arrays h' a = arrays h2 a"
    "length sa = length rest"
    by simp_all
  have "next_object h \<le> next_object h'" using ih(1) no by simp
  moreover have "next_array h \<le> next_array h'" using ih(2) na by simp
  moreover have "\<forall>q. q < next_object h \<longrightarrow> objects h' q = objects h q"
    using ih(3) ob no by simp
  moreover have "\<forall>a. a < next_array h \<longrightarrow> a \<noteq> pa \<longrightarrow> arrays h' a = arrays h a"
    using ih(4) ar na by simp
  moreover have "length secs = length (kv # rest)" using ih(5) secs by simp
  ultimately show ?case by blast
qed

lemma list_all2_left:
  "list_all2 P xs ys \<Longrightarrow> x \<in> set xs \<Longrightarrow> \<exists>y. P x y"
  by (induction rule: list_all2_induct) auto

lemma section_of_earlier:
  assumes "section_of rt h2 h' ps2 s kv"
      and "next_object h \<le> next_object h2" "next_array h \<le> next_array h2"
      and "mset ps2 = mset ps"
  shows "section_of rt h h' ps s kv"
  using assms by (auto simp: section_of_def split: option.splits obj.splits)

lemma section_of_later:
  assumes so: "section_of rt h h1 ps s kv"
      and nb: "next_object h1 \<le> next_object h2" "next_array h1 \<le> next_array h2"
      and ob: "\<And>q. q < next_object h1 \<Longrightarrow> next_object h \<le> q \<Longrightarrow> objects h2 q = objects h1 q"
      and ar: "\<And>b. b < next_array h1 \<Longrightarrow> next_array h \<le> b \<Longrightarrow> arrays h2 b = arrays h1 b"
  shows "section_of rt h h2 ps s kv \<and> section_array h2 s = section_array h1 s"
proof -
  from so obtain a c res where
    b: "next_object h \<le> s" "s < next_object h1"
    and o: "objects h1 s = Some (Collection a c)" "c = snd kv"
    and ab: "next_array h \<le> a" "a < next_array h1"
    and r: "arrays h1 a = Some res" "\<exists>ps'. mset ps' = mset ps \<and> shaped_posts rt c ps' = Inr res"
    by (auto simp: section_of_def split: option.splits obj.splits)
  have o2: "objects h2 s = objects h1 s" by (rule ob [OF b(2,1)])
  have a2: "arrays h2 a = arrays h1 a" by (rule ar [OF ab(2,1)])
  from b o ab r nb o2 a2 show ?thesis
    by (simp add: section_of_def section_array_def)
qed

lemma sections_shaped_later:
  assumes ss: "sections_shaped rt h h1 ps secs kvs"
      and nb: "next_object h1 \<le> next_object h2" "next_array h1 \<le> next_array h2"
      and ob: "\<And>q. q < next_object h1 \<Longrightarrow> next_object h \<le> q \<Longrightarrow> objects h2 q = objects h1 q"
      and ar: "\<And>b. b < next_array h1 \<Longrightarrow> next_array h \<le> b \<Longrightarrow> arrays h2 b = arrays h1 b"
  shows "sections_shaped rt h h2 ps secs kvs"
proof -
  from ss have l: "list_all2 (section_of rt h h1 ps) secs kvs"
    and d: "distinct (map (section_array h1) secs)"
    by (simp_all add: sections_shaped_def)
  have each: "\<And>s kv. section_of rt h h1 ps s kv \<Longrightarrow>
      section_of rt h h2 ps s kv \<and> section_array h2 s = section_array h1 s"
    by (rule section_of_later [OF _ nb ob ar])
  have l2: "list_all2 (section_of rt h h2 ps) secs kvs"
    by (rule list_all2_mono [OF l]) (simp add: each)
  have "\<And>s. s \<in> set secs \<Longrightarrow> section_array h2 s = section_array h1 s"
  proof -
    fix s assume "s \<in> set secs"
    with list_all2_left [OF l] obtain kv where "section_of rt h h1 ps s kv"
      by blast
    then show "section_array h2 s = section_array h1 s" by (simp add: each)
  qed
  then have meq: "map (section_array h2) secs = map (section_array h1) secs"
    by (rule map_cong [OF refl])
  show ?thesis
    unfolding sections_shaped_def meq using d l2 by (rule conjI [rotated])
qed

text \<open>
  The sections the loop makes: one for each key, in the order of the keys, each with
  its own array; the first is shaped from the posts as they were, the others from the
  posts in the order the shared array then has.
\<close>

lemma sections_loop_sections:
  assumes "sections_loop rt p kvs h = Inr (secs, h')"
      and "objects h p = Some (Collection pa c0)" "p < next_object h"
      and "pa < next_array h" "arrays h pa = Some ps"
  shows "sections_shaped rt h h' ps secs kvs"
  using assms
proof (induction kvs arbitrary: h secs ps)
  case Nil
  then show ?case by (simp add: sections_shaped_def)
next
  case (Cons kv rest)
  obtain k cfg where kv: "kv = (k, cfg)" by (cases kv)
  define h1 where "h1 = h\<lparr>objects := (objects h)(next_object h \<mapsto> Collection pa cfg),
                           next_object := Suc (next_object h)\<rparr>"
  from Cons.prems(1) kv Cons.prems(2)
  obtain tp h2 sa where
    run: "sortAndSlicePost rt (next_object h) h1 = Inr (tp, h2)"
    and rest: "sections_loop rt p rest h2 = Inr (sa, h')"
    and secs: "secs = tp # sa"
    by (auto simp: alloc_object_def h1_def split: sum.splits)
  have o1: "objects h1 (next_object h) = Some (Collection pa cfg)"
    by (simp add: h1_def)
  have a1: "arrays h1 pa = Some ps" "pa < next_array h1"
    using Cons.prems(4,5) by (simp_all add: h1_def)
  note f = sortAndSlicePost_frame [OF run o1]
  have tp: "tp = next_object h" by (rule f(1))
  have no: "next_object h2 = Suc (next_object h)" using f(2) by (simp add: h1_def)
  have na: "next_array h < next_array h2" using f(3) by (simp add: h1_def)
  have ob: "\<And>q. q < next_object h \<Longrightarrow> objects h2 q = objects h q"
    using f(4) by (simp add: h1_def)
  from f(7) a1(1) obtain a' res where
    hd: "objects h2 tp = Some (Collection a' cfg)" "next_array h \<le> a'" "a' < next_array h2"
        "arrays h2 a' = Some res" "shaped_posts rt cfg ps = Inr res"
    by (auto simp: h1_def tp)
  from sortAndSlicePost_shared_array [OF run o1 a1(2) a1(1)] obtain ps2 where
    ps2: "arrays h2 pa = Some ps2" "mset ps2 = mset ps"
    by blast
  have p2: "objects h2 p = Some (Collection pa c0)"
    using ob [OF Cons.prems(3)] Cons.prems(2) by simp
  have pb2: "p < next_object h2" using Cons.prems(3) no by simp
  have pa2: "pa < next_array h2" using Cons.prems(4) na by simp
  from sections_loop_frame [OF rest p2 pb2]
  have fr: "next_object h2 \<le> next_object h'" "next_array h2 \<le> next_array h'"
    "\<And>q. q < next_object h2 \<Longrightarrow> objects h' q = objects h2 q"
    "\<And>a. a < next_array h2 \<Longrightarrow> a \<noteq> pa \<Longrightarrow> arrays h' a = arrays h2 a"
    by simp_all
  from Cons.IH [OF rest p2 pb2 pa2 ps2(1)]
  have ih: "list_all2 (section_of rt h2 h' ps2) sa rest"
    "distinct (map (section_array h') sa)"
    by (simp_all add: sections_shaped_def)
  have tpo: "objects h' tp = Some (Collection a' cfg)"
    using fr(3) [of tp] hd(1) no tp by simp
  have "a' \<noteq> pa" using hd(2) Cons.prems(4) by simp
  then have tpa: "arrays h' a' = Some res"
    using fr(4) [OF hd(3)] hd(4) by simp
  have "\<exists>ps'. mset ps' = mset ps \<and> shaped_posts rt cfg ps' = Inr res"
    using hd(5) by blast
  then have head: "section_of rt h h' ps tp kv"
    using tpo tpa hd(2,3) fr(1,2) no tp kv
    by (simp add: section_of_def)
  have tail: "list_all2 (section_of rt h h' ps) sa rest"
  proof (rule list_all2_mono [OF ih(1)])
    fix s kv' assume so: "section_of rt h2 h' ps2 s kv'"
    show "section_of rt h h' ps s kv'"
    proof (rule section_of_earlier)
      show "section_of rt h2 h' ps2 s kv'" by (rule so)
      show "next_object h \<le> next_object h2" using no by simp
      show "next_array h \<le> next_array h2" using na by simp
      show "mset ps2 = mset ps" by (rule ps2(2))
    qed
  qed
  have "section_array h' tp \<notin> set (map (section_array h') sa)"
  proof
    assume "section_array h' tp \<in> set (map (section_array h') sa)"
    then obtain s where s: "s \<in> set sa" "section_array h' s = Some a'"
      using tpo by (auto simp: section_array_def)
    from list_all2_left [OF ih(1) s(1)] obtain kv' where "section_of rt h2 h' ps2 s kv'"
      by blast
    with s(2) have "next_array h2 \<le> a'"
      by (auto simp: section_of_def section_array_def split: option.splits obj.splits)
    with hd(3) show False by simp
  qed
  with ih(2) head tail secs show ?case
    by (simp add: sections_shaped_def)
qed

lemma collection_arrayD:
  "collection_array h m = Some a \<Longrightarrow>
     \<exists>c. objects h m = Some (Collection a c) \<and> m < next_object h \<and> a < next_array h"
  by (auto simp: collection_array_def split: option.splits obj.splits if_splits)

text \<open>What the function mapped over \<^verbatim>\<open>mails\<close> changes for one collection.\<close>

lemma shape_collection_frame:
  assumes run: "shape_collection rt p h = Inr (r, h')"
      and ca: "collection_array h p = Some pa"
  shows "next_object h \<le> next_object h' \<and> next_array h \<le> next_array h'
         \<and> (\<forall>q. q < next_object h \<longrightarrow> q \<noteq> p \<longrightarrow> objects h' q = objects h q)
         \<and> (\<forall>a. a < next_array h \<longrightarrow> a \<noteq> pa \<longrightarrow> arrays h' a = arrays h a)
         \<and> entry_shaped rt h h' p r"
proof -
  from collection_arrayD [OF ca] obtain c where
    o: "objects h p = Some (Collection pa c)" and pb: "p < next_object h"
    and ab: "pa < next_array h"
    by blast
  have "\<exists>ps. arrays h pa = Some ps"
  proof (cases "has_sections c")
    case True
    then obtain e es where "cfg_structure c = Structure (e # es)"
      by (auto simp: has_sections_def split: structure.splits list.splits)
    with run o obtain secs h1 where "sections_loop rt p (e # es) h = Inr (secs, h1)"
      by (auto simp: shape_collection_def split: sum.splits)
    then obtain e' es' tp h2 where "e = (e', es')"
      "sortAndSlicePost rt (next_object h)
         (h\<lparr>objects := (objects h)(next_object h \<mapsto> Collection pa es'),
            next_object := Suc (next_object h)\<rparr>) = Inr (tp, h2)"
      using o by (cases e) (auto simp: alloc_object_def split: sum.splits)
    from sortAndSlicePost_Inr [OF this(2)] show ?thesis by auto
  next
    case False
    with run o have "sortAndSlicePost rt p h = Inr (r, h')"
      by (auto simp: shape_collection_def has_sections_def
               split: structure.splits list.splits)
    from sortAndSlicePost_Inr [OF this] o show ?thesis by auto
  qed
  then obtain ps where ps: "arrays h pa = Some ps" by blast
  show ?thesis
  proof (cases "has_sections c")
    case True
    then obtain e es where st: "cfg_structure c = Structure (e # es)"
      by (auto simp: has_sections_def split: structure.splits list.splits)
    with run o obtain secs h1 where
      loop: "sections_loop rt p (e # es) h = Inr (secs, h1)"
      and res: "(r, h') = alloc_object (Sections secs) h1"
      by (auto simp: shape_collection_def split: sum.splits)
    from sections_loop_frame [OF loop o pb]
    have f: "next_object h \<le> next_object h1" "next_array h \<le> next_array h1"
      "\<And>q. q < next_object h \<Longrightarrow> objects h1 q = objects h q"
      "\<And>a. a < next_array h \<Longrightarrow> a \<noteq> pa \<Longrightarrow> arrays h1 a = arrays h a"
      by simp_all
    from res have r: "r = next_object h1"
      and h': "h' = h1\<lparr>objects := (objects h1)(next_object h1 \<mapsto> Sections secs),
                       next_object := Suc (next_object h1)\<rparr>"
      by (simp_all add: alloc_object_def)
    have kvs: "structure_entries c = e # es" by (simp add: structure_entries_def st)
    have "sections_shaped rt h h1 ps secs (e # es)"
      by (rule sections_loop_sections [OF loop o pb ab ps])
    then have "sections_shaped rt h h' ps secs (e # es)"
      by (rule sections_shaped_later) (simp_all add: h')
    then have "entry_shaped rt h h' p r"
      using o ps True f(1) kvs by (simp add: entry_shaped_def r h')
    moreover have "\<forall>q. q < next_object h \<longrightarrow> q \<noteq> p \<longrightarrow> objects h' q = objects h q"
      using f(1,3) by (simp add: h')
    moreover have "\<forall>a. a < next_array h \<longrightarrow> a \<noteq> pa \<longrightarrow> arrays h' a = arrays h a"
      using f(4) by (simp add: h')
    moreover have "next_object h \<le> next_object h'" "next_array h \<le> next_array h'"
      using f(1,2) by (simp_all add: h')
    ultimately show ?thesis by blast
  next
    case False
    with run o have run': "sortAndSlicePost rt p h = Inr (r, h')"
      by (auto simp: shape_collection_def has_sections_def
               split: structure.splits list.splits)
    note f = sortAndSlicePost_frame [OF run' o]
    from f(7) obtain a' ps res where
      n: "objects h' p = Some (Collection a' c)" "next_array h \<le> a'" "a' < next_array h'"
         "arrays h pa = Some ps" "arrays h' a' = Some res" "shaped_posts rt c ps = Inr res"
      by blast
    have "entry_shaped rt h h' p r"
      using o False f(1) n by (simp add: entry_shaped_def)
    moreover have "\<forall>q. q < next_object h \<longrightarrow> q \<noteq> p \<longrightarrow> objects h' q = objects h q"
      using f(4) by simp
    moreover have "\<forall>a. a < next_array h \<longrightarrow> a \<noteq> pa \<longrightarrow> arrays h' a = arrays h a"
      using f(5) by simp
    moreover have "next_object h \<le> next_object h'" "next_array h \<le> next_array h'"
      using f(2,3) by simp_all
    ultimately show ?thesis by blast
  qed
qed

lemma entry_shaped_later:
  assumes e: "entry_shaped rt h h1 m m'"
      and ca: "collection_array h m = Some a"
      and nb: "next_object h1 \<le> next_object h2" "next_array h1 \<le> next_array h2"
      and ob: "\<And>q. q < next_object h1 \<Longrightarrow> q \<notin> S \<Longrightarrow> objects h2 q = objects h1 q"
      and ar: "\<And>b. b < next_array h1 \<Longrightarrow> b \<notin> T \<Longrightarrow> arrays h2 b = arrays h1 b"
      and S: "m \<notin> S" "\<And>q. q \<in> S \<Longrightarrow> q < next_object h"
      and T: "\<And>b. b \<in> T \<Longrightarrow> b < next_array h"
      and le: "next_object h \<le> next_object h1"
  shows "entry_shaped rt h h2 m m'"
proof -
  from collection_arrayD [OF ca] obtain c where
    o: "objects h m = Some (Collection a c)" and mb: "m < next_object h" by blast
  from e o obtain ps where ps: "arrays h a = Some ps"
    by (auto simp: entry_shaped_def split: option.splits)
  have ob': "\<And>q. q < next_object h1 \<Longrightarrow> next_object h \<le> q \<Longrightarrow> objects h2 q = objects h1 q"
  proof -
    fix q assume q: "q < next_object h1" "next_object h \<le> q"
    have "q \<notin> S" using S(2) q(2) by fastforce
    then show "objects h2 q = objects h1 q" by (rule ob [OF q(1)])
  qed
  have ar': "\<And>b. b < next_array h1 \<Longrightarrow> next_array h \<le> b \<Longrightarrow> arrays h2 b = arrays h1 b"
  proof -
    fix b assume b: "b < next_array h1" "next_array h \<le> b"
    have "b \<notin> T" using T b(2) by fastforce
    then show "arrays h2 b = arrays h1 b" by (rule ar [OF b(1)])
  qed
  show ?thesis
  proof (cases "has_sections c")
    case True
    with e o ps obtain secs where b: "next_object h \<le> m'" "m' < next_object h1"
      and s: "objects h1 m' = Some (Sections secs)"
             "sections_shaped rt h h1 ps secs (structure_entries c)"
      by (auto simp: entry_shaped_def split: option.splits obj.splits)
    have "objects h2 m' = objects h1 m'" by (rule ob' [OF b(2,1)])
    moreover have "sections_shaped rt h h2 ps secs (structure_entries c)"
      by (rule sections_shaped_later [OF s(2) nb ob' ar'])
    ultimately show ?thesis
      using s(1) b nb(1) o ps True by (simp add: entry_shaped_def)
  next
    case False
    with e o ps obtain a' res where
      n: "m' = m" "objects h1 m = Some (Collection a' c)" "next_array h \<le> a'"
         "a' < next_array h1" "arrays h1 a' = Some res"
         "shaped_posts rt c ps = Inr res"
      by (auto simp: entry_shaped_def split: option.splits obj.splits)
    have "m < next_object h1" using mb le by simp
    with ob [OF this S(1)] n(2) have o2: "objects h2 m = Some (Collection a' c)" by simp
    from ar' [OF n(4,3)] n(5) have "arrays h2 a' = Some res" by simp
    with o2 n nb(2) o ps False show ?thesis by (simp add: entry_shaped_def)
  qed
qed

lemma entry_shaped_earlier:
  assumes e: "entry_shaped rt h1 h2 m m'"
      and ca: "collection_array h m = Some a"
      and o1: "objects h1 m = objects h m" and a1: "arrays h1 a = arrays h a"
      and le: "next_object h \<le> next_object h1" "next_array h \<le> next_array h1"
  shows "entry_shaped rt h h2 m m'"
proof -
  from collection_arrayD [OF ca] obtain c where
    o: "objects h m = Some (Collection a c)" by blast
  from e o o1 a1 obtain ps where ps: "arrays h a = Some ps"
    by (auto simp: entry_shaped_def split: option.splits)
  show ?thesis
  proof (cases "has_sections c")
    case True
    with e o o1 a1 ps obtain secs where b: "next_object h1 \<le> m'" "m' < next_object h2"
      and s: "objects h2 m' = Some (Sections secs)"
             "sections_shaped rt h1 h2 ps secs (structure_entries c)"
      by (auto simp: entry_shaped_def split: option.splits obj.splits)
    from s(2) have l: "list_all2 (section_of rt h1 h2 ps) secs (structure_entries c)"
      and d: "distinct (map (section_array h2) secs)"
      by (simp_all add: sections_shaped_def)
    have "list_all2 (section_of rt h h2 ps) secs (structure_entries c)"
      by (rule list_all2_mono [OF l]) (rule section_of_earlier [OF _ le refl])
    with d have "sections_shaped rt h h2 ps secs (structure_entries c)"
      by (simp add: sections_shaped_def)
    with s(1) b le(1) o ps True show ?thesis by (simp add: entry_shaped_def)
  next
    case False
    with e o o1 a1 ps le show ?thesis
      by (auto simp: entry_shaped_def split: option.splits obj.splits)
  qed
qed

lemma unshared_Cons:
  "unshared h (p # ps) \<Longrightarrow>
     (\<exists>pa. collection_array h p = Some pa) \<and> unshared h ps \<and> p \<notin> set ps
     \<and> collection_array h p \<notin> set (map (collection_array h) ps)"
  by (auto simp: unshared_def)

lemma unshared_frame:
  assumes u: "unshared h ps"
      and ob: "\<And>q. q \<in> set ps \<Longrightarrow> objects h1 q = objects h q"
      and le: "next_object h \<le> next_object h1" "next_array h \<le> next_array h1"
      and q: "q \<in> set ps"
  shows "collection_array h1 q = collection_array h q"
proof -
  from q u obtain a where a: "collection_array h q = Some a"
    by (auto simp: unshared_def list_all_iff)
  from collection_arrayD [OF a] ob [OF q] le show ?thesis
    by (auto simp: collection_array_def)
qed

text \<open>The map over \<^verbatim>\<open>mails\<close>, for collections that share nothing.\<close>

lemma map_mails_frame:
  assumes "map_mails rt ms h = Inr (rs, h')" "unshared h ms"
  shows "next_object h \<le> next_object h' \<and> next_array h \<le> next_array h'
         \<and> (\<forall>q. q < next_object h \<longrightarrow> q \<notin> set ms \<longrightarrow> objects h' q = objects h q)
         \<and> (\<forall>a. a < next_array h \<longrightarrow> Some a \<notin> set (map (collection_array h) ms)
                \<longrightarrow> arrays h' a = arrays h a)
         \<and> list_all2 (entry_shaped rt h h') ms rs"
  using assms
proof (induction ms arbitrary: h rs)
  case Nil
  then show ?case by simp
next
  case (Cons p ps)
  from unshared_Cons [OF Cons.prems(2)] obtain pa where
    ca: "collection_array h p = Some pa" and u: "unshared h ps" and np: "p \<notin> set ps"
    and na: "Some pa \<notin> set (map (collection_array h) ps)"
    by auto
  from Cons.prems(1) obtain r h1 rs' where
    run: "shape_collection rt p h = Inr (r, h1)"
    and rest: "map_mails rt ps h1 = Inr (rs', h')"
    and rs: "rs = r # rs'"
    by (auto split: sum.splits)
  from shape_collection_frame [OF run ca]
  have f: "next_object h \<le> next_object h1" "next_array h \<le> next_array h1"
    "\<And>q. q < next_object h \<Longrightarrow> q \<noteq> p \<Longrightarrow> objects h1 q = objects h q"
    "\<And>a. a < next_array h \<Longrightarrow> a \<noteq> pa \<Longrightarrow> arrays h1 a = arrays h a"
    "entry_shaped rt h h1 p r"
    by simp_all
  have tail: "\<And>q. q \<in> set ps \<Longrightarrow>
      \<exists>a. collection_array h q = Some a \<and> q < next_object h \<and> a < next_array h \<and> q \<noteq> p
          \<and> a \<noteq> pa"
  proof -
    fix q assume q: "q \<in> set ps"
    with u obtain a where a: "collection_array h q = Some a"
      by (auto simp: unshared_def list_all_iff)
    from q a na have "a \<noteq> pa" by force
    with collection_arrayD [OF a] a q np show
      "\<exists>a. collection_array h q = Some a \<and> q < next_object h \<and> a < next_array h \<and> q \<noteq> p
          \<and> a \<noteq> pa"
      by auto
  qed
  have ob1: "\<And>q. q \<in> set ps \<Longrightarrow> objects h1 q = objects h q"
    using tail f(3) by blast
  have ca1: "\<And>q. q \<in> set ps \<Longrightarrow> collection_array h1 q = collection_array h q"
    by (rule unshared_frame [OF u ob1 f(1,2)])
  then have maps: "map (collection_array h1) ps = map (collection_array h) ps"
    by simp
  have u1: "unshared h1 ps"
    using u ca1 by (simp add: unshared_def list_all_iff maps)
  from Cons.IH [OF rest u1]
  have ih: "next_object h1 \<le> next_object h'" "next_array h1 \<le> next_array h'"
    "\<And>q. q < next_object h1 \<Longrightarrow> q \<notin> set ps \<Longrightarrow> objects h' q = objects h1 q"
    "\<And>a. a < next_array h1 \<Longrightarrow> Some a \<notin> set (map (collection_array h1) ps)
          \<Longrightarrow> arrays h' a = arrays h1 a"
    "list_all2 (entry_shaped rt h1 h') ps rs'"
    by simp_all
  have head: "entry_shaped rt h h' p r"
  proof (rule entry_shaped_later [OF f(5) ca ih(1,2), where S = "set ps"
            and T = "{a. Some a \<in> set (map (collection_array h) ps)}"])
    fix q assume "q < next_object h1" "q \<notin> set ps"
    then show "objects h' q = objects h1 q" by (rule ih(3))
  next
    fix b assume "b < next_array h1" "b \<notin> {a. Some a \<in> set (map (collection_array h) ps)}"
    then show "arrays h' b = arrays h1 b" using ih(4) maps by simp
  next
    show "p \<notin> set ps" by (rule np)
  next
    fix q assume "q \<in> set ps" then show "q < next_object h" using tail by blast
  next
    fix b assume "b \<in> {a. Some a \<in> set (map (collection_array h) ps)}"
    then obtain q where "q \<in> set ps" "collection_array h q = Some b" by auto
    then show "b < next_array h" using collection_arrayD by blast
  next
    show "next_object h \<le> next_object h1" by (rule f(1))
  qed
  have tl: "list_all2 (entry_shaped rt h h') ps rs'"
  proof (rule list.rel_mono_strong [OF ih(5)])
    fix q q' assume q: "q \<in> set ps" and e: "entry_shaped rt h1 h' q q'"
    from tail [OF q] obtain a where a: "collection_array h q = Some a" "a < next_array h"
      "a \<noteq> pa" by blast
    show "entry_shaped rt h h' q q'"
      by (rule entry_shaped_earlier [OF e a(1) ob1 [OF q] f(4) [OF a(2,3)] f(1,2)])
  qed
  have "next_object h \<le> next_object h'" using f(1) ih(1) by simp
  moreover have "next_array h \<le> next_array h'" using f(2) ih(2) by simp
  moreover have "\<forall>q. q < next_object h \<longrightarrow> q \<notin> set (p # ps) \<longrightarrow> objects h' q = objects h q"
    using f(1,3) ih(3) by simp
  moreover have "\<forall>a. a < next_array h \<longrightarrow> Some a \<notin> set (map (collection_array h) (p # ps))
                \<longrightarrow> arrays h' a = arrays h a"
    using f(2,4) ih(4) maps ca by simp
  moreover have "list_all2 (entry_shaped rt h h') (p # ps) rs"
    using head tl rs by simp
  ultimately show ?case by blast
qed

text \<open>
  C10. For a document whose collections share nothing, \<^verbatim>\<open>transformPosts\<close> returns the
  reference it was given; the object it refers to keeps its name, and each entry of its
  \<^verbatim>\<open>mails\<close> is now either the same collection object, whose \<^verbatim>\<open>posts\<close> refers to an
  array allocated by the call that holds the filtered, sorted and sliced posts, or, for
  a collection with sections, a sections object allocated by the call: one section for
  each key of the structure, in the order of the keys, each a new collection object with
  the configuration of its key and an array of its own.
\<close>

theorem transformPosts_in_place:
  assumes "objects h d = Some (Document ms n)" "d < next_object h" "unshared h ms"
      and "transformPosts rt d h = Inr (d', h')"
  shows "d' = d
         \<and> (\<exists>ms'. objects h' d = Some (Document ms' n)
                \<and> list_all2 (entry_shaped rt h h') ms ms')"
proof -
  from assms(1,4) obtain ms' h1 where
    run: "map_mails rt ms h = Inr (ms', h1)"
    and res: "d' = d" "h' = set_mails d ms' h1"
    by (auto simp: transformPosts_def split: sum.splits)
  have dm: "d \<notin> set ms"
  proof
    assume "d \<in> set ms"
    with assms(3) obtain a where "collection_array h d = Some a"
      by (auto simp: unshared_def list_all_iff)
    from collection_arrayD [OF this] assms(1) show False by simp
  qed
  from map_mails_frame [OF run assms(3)]
  have f: "next_object h \<le> next_object h1"
    "\<And>q. q < next_object h \<Longrightarrow> q \<notin> set ms \<Longrightarrow> objects h1 q = objects h q"
    "list_all2 (entry_shaped rt h h1) ms ms'"
    by simp_all
  from f(2) [OF assms(2) dm] assms(1) have d1: "objects h1 d = Some (Document ms n)" by simp
  then have h': "h' = h1\<lparr>objects := (objects h1)(d \<mapsto> Document ms' n)\<rparr>"
    by (simp add: res set_mails_def)
  have "list_all2 (entry_shaped rt h h') ms ms'"
  proof (rule list.rel_mono_strong [OF f(3)])
    fix m m' assume m: "m \<in> set ms" and e: "entry_shaped rt h h1 m m'"
    from m assms(3) obtain a where a: "collection_array h m = Some a"
      by (auto simp: unshared_def list_all_iff)
    show "entry_shaped rt h h' m m'"
    proof (rule entry_shaped_later [OF e a, where S = "{d}" and T = "{}"])
      show "m \<notin> {d}" using m dm by auto
      show "\<And>q. q \<in> {d} \<Longrightarrow> q < next_object h" using assms(2) by simp
      show "next_object h \<le> next_object h1" by (rule f(1))
    qed (simp_all add: h')
  qed
  moreover have "objects h' d = Some (Document ms' n)" by (simp add: h')
  ultimately show ?thesis using res(1) by blast
qed

lemma digest_eval:
  "view_document (transformPosts example_runtime 2 digest_heap) =
     Inr (JStr ''Daily Digest'',
          [Unsectioned points_config
             [[(''title'', JStr ''f''), (''points'', JNum (Fin 60))],
              [(''title'', JStr ''e''), (''points'', JNum (Fin 50))],
              [(''title'', JStr ''d''), (''points'', JNum (Fin 40))]],
           Sectioned
             [Unsectioned by_y_config
                [[(''title'', JStr ''B''), (''x'', JNum (Fin 1)), (''y'', JNum (Fin 1))]],
              Unsectioned by_x_config
                [[(''title'', JStr ''B''), (''x'', JNum (Fin 1)), (''y'', JNum (Fin 1))]]]])"
  by (simp add: heap_eval post_eval digest_heap_def points_config_def points_posts_def
        tie_config_def tie_posts_def by_x_config_def by_y_config_def)

theorem transformPosts_in_place_witness:
  "unshared digest_heap [0, 1]
   \<and> view_document (transformPosts example_runtime 2 digest_heap) =
       Inr (JStr ''Daily Digest'',
          [Unsectioned points_config
             [[(''title'', JStr ''f''), (''points'', JNum (Fin 60))],
              [(''title'', JStr ''e''), (''points'', JNum (Fin 50))],
              [(''title'', JStr ''d''), (''points'', JNum (Fin 40))]],
           Sectioned
             [Unsectioned by_y_config
                [[(''title'', JStr ''B''), (''x'', JNum (Fin 1)), (''y'', JNum (Fin 1))]],
              Unsectioned by_x_config
                [[(''title'', JStr ''B''), (''x'', JNum (Fin 1)), (''y'', JNum (Fin 1))]]]])
   \<and> (\<exists>h'. transformPosts example_runtime 2 digest_heap = Inr (2, h')
         \<and> (\<exists>ms'. objects h' 2 = Some (Document ms' (JStr ''Daily Digest''))
                \<and> list_all2 (entry_shaped example_runtime digest_heap h') [0, 1] ms'))"
proof -
  have o: "objects digest_heap 2 = Some (Document [0, 1] (JStr ''Daily Digest''))"
    and b: "2 < next_object digest_heap"
    by (simp_all add: digest_heap_def)
  have u: "unshared digest_heap [0, 1]"
    by (simp add: unshared_def collection_array_def digest_heap_def)
  from digest_eval obtain d' h' where
    run: "transformPosts example_runtime 2 digest_heap = Inr (d', h')"
    by (cases "transformPosts example_runtime 2 digest_heap")
       (auto simp: view_document_def)
  from transformPosts_in_place [OF o b u run] run u digest_eval show ?thesis
    by simp
qed

section \<open>Sections share the array they sort\<close>

text \<open>
  C3. Each section starts from a copy of the collection object, and the copy refers to
  the same array of posts; a section without a filter sorts that array in place. The
  second section therefore sorts the posts in the order the first section left them:
  with two posts that tie under the second section's key, the section of one post holds
  \<^verbatim>\<open>B\<close>, while the original posts, sorted and sliced under the same configuration, give
  \<^verbatim>\<open>A\<close>.
\<close>

theorem sections_share_sorted_array:
  "view_document (transformPosts example_runtime 1 (single_heap tie_config tie_posts)) =
     Inr (JStr ''Daily Digest'',
          [Sectioned
             [Unsectioned by_y_config
                [[(''title'', JStr ''B''), (''x'', JNum (Fin 1)), (''y'', JNum (Fin 1))]],
              Unsectioned by_x_config
                [[(''title'', JStr ''B''), (''x'', JNum (Fin 1)), (''y'', JNum (Fin 1))]]]])
   \<and> shaped_posts example_runtime by_x_config tie_posts =
       Inr [[(''title'', JStr ''A''), (''x'', JNum (Fin 1)), (''y'', JNum (Fin 2))]]"
  by (simp add: heap_eval post_eval tie_config_def tie_posts_def by_x_config_def
        by_y_config_def)

end
